theory Spec2Isabelle
  imports Main
begin

section \<open>The control-flow graph of \<^verbatim>\<open>octopus/arch/wasm/graph.py\<close>\<close>

text \<open>
  Basic blocks are named by strings. An edge carries one of the four types listed in
  \<^verbatim>\<open>extract_basic_blocks\<close>. A Python \<^verbatim>\<open>dict\<close> is an association list holding its
  items in insertion order: iterating it yields \<open>map fst\<close>, \<^verbatim>\<open>d[k]\<close> is \<open>map_of d k\<close>
  (\<open>None\<close> is the \<^verbatim>\<open>KeyError\<close>), and \<^verbatim>\<open>len(d)\<close> is \<open>length d\<close>.
\<close>

type_synonym blk = string

datatype edge_type = unconditional | fallthrough | conditional_true | conditional_false

type_synonym 'v edge_dict = "(edge_type \<times> 'v) list"

text \<open>
  The class attributes of \<^verbatim>\<open>Graph\<close> (lines 45 to 50) that are filled in before a
  traversal. \<^verbatim>\<open>_wasmVM\<close> is the external machine; its operations are parameters of the
  functions below.
\<close>

record 'i Graph =
  func_to_bbs :: "(string \<times> blk list) list"
  bb_to_instructions :: "(blk \<times> 'i list) list"
  bbs_graph :: "(blk \<times> blk edge_dict) list"
  manual_guide :: bool

text \<open>
  \<^verbatim>\<open>_loop_maximum_rounds = 5\<close> (line 48), read through the class property
  \<^verbatim>\<open>loop_maximum_rounds\<close>; nothing in the sources assigns it.
\<close>

definition loop_maximum_rounds :: nat where
  "loop_maximum_rounds = 5"

text \<open>
  \<^verbatim>\<open>cls.bbs_graph[blk]\<close>: the graph is a \<^verbatim>\<open>defaultdict(dict)\<close>, so a block without an
  entry reads as the empty dictionary. (The read also stores that empty dictionary under
  the key; no later read can tell the difference, so the store is not modelled.)
\<close>

definition out_edges :: "'i Graph \<Rightarrow> blk \<Rightarrow> blk edge_dict" where
  "out_edges g b = (case map_of (bbs_graph g) b of None \<Rightarrow> [] | Some d \<Rightarrow> d)"

section \<open>The cycle detector \<^verbatim>\<open>Graph.pre\<close>\<close>

text \<open>
  \<^verbatim>\<open>vis\<close> is a \<^verbatim>\<open>defaultdict(int)\<close>: a total function whose missing keys read as 0.
  \<^verbatim>\<open>circles\<close> is a set. The third component of the state is a ghost: the blocks
  \<^verbatim>\<open>pre\<close> was invoked on, in call order. No branch reads it.

  The recursion of \<^verbatim>\<open>pre\<close> is not bounded by the source, so the model takes the depth
  of the Python call stack as fuel: \<open>pre n\<close> may nest \<open>n\<close> calls, and \<open>None\<close> says
  that the depth did not suffice.
\<close>

type_synonym pre_state = "(blk \<Rightarrow> int) \<times> blk set \<times> blk list"

text \<open>A fresh \<^verbatim>\<open>defaultdict(int)\<close>.\<close>

definition no_counters :: "blk \<Rightarrow> int" where
  "no_counters = (\<lambda>_. 0)"

fun pre_loop :: "(blk \<Rightarrow> pre_state \<Rightarrow> pre_state option) \<Rightarrow> blk list \<Rightarrow> pre_state \<Rightarrow> pre_state option"
  where
  "pre_loop rec [] st = Some st"
| "pre_loop rec (nxt # rest) st =
     (case rec nxt st of None \<Rightarrow> None | Some st' \<Rightarrow> pre_loop rec rest st')"

definition pre_body ::
  "(blk \<Rightarrow> pre_state \<Rightarrow> pre_state option) \<Rightarrow> 'i Graph \<Rightarrow> blk \<Rightarrow> pre_state \<Rightarrow> pre_state option"
  where
  "pre_body rec g b st =
     (case st of (vis, circles, calls) \<Rightarrow>
        if vis b = 1 \<and> length (out_edges g b) = 2
        then Some (vis, insert b circles, calls @ [b])
        else pre_loop rec (map snd (out_edges g b)) (vis(b := 1), circles, calls @ [b]))"

fun pre :: "nat \<Rightarrow> 'i Graph \<Rightarrow> blk \<Rightarrow> pre_state \<Rightarrow> pre_state option" where
  "pre 0 g b st = None"
| "pre (Suc n) g b st = pre_body (pre n g) g b st"


section \<open>Symbolic states, results and the external collaborators\<close>

text \<open>
  \<^verbatim>\<open>WasmVMstate\<close> (\<^verbatim>\<open>vmstate.py\<close>). \<^verbatim>\<open>Graph\<close> reads the constraint list and reads and
  writes the current function name; the other fields (stack, memory, locals, globals,
  instruction, sign mapping, stdin buffer) are only handled by the emulator and live in
  the extension of the record. Constraints are Z3 expressions, a type parameter here.
\<close>

record 'c WasmVMstate =
  constraints :: "'c list"
  current_func_name :: string

text \<open>
  An element of the list the emulator returns is a state, or for a branching block a
  dictionary from edge type to the state after that branch
  (\<^verbatim>\<open>isinstance(state_item, dict)\<close>).
\<close>

datatype ('c, 'm) item =
  StateItem "('c, 'm) WasmVMstate_scheme"
| DictItem "(('c, 'm) WasmVMstate_scheme) edge_dict"

text \<open>
  Exceptions: the built-in ones the code of \<^verbatim>\<open>Graph\<close> can raise, the exception of Z3,
  and the classes of \<^verbatim>\<open>exceptions.py\<close>, which the emulator raises.
\<close>

datatype error =
  KeyError | IndexError | TypeError | ValueError | AssertionError | EOFError
| AttributeError | Z3Exception
| UnsupportZ3TypeError | UninitializedLocalVariableError | UnsupportGlobalTypeError
| UnsupportInstructionError | NotDeterminedRetValError | UninitializedStateError
| MemoryLoadError

text \<open>
  The result of a call that recurses: it returns a value, raises, or has used up the
  call depth it was given.
\<close>

datatype 'a result = OutOfFuel | Raise error | Return 'a

fun bind :: "'a result \<Rightarrow> ('a \<Rightarrow> 'b result) \<Rightarrow> 'b result" where
  "bind OutOfFuel f = OutOfFuel"
| "bind (Raise e) f = Raise e"
| "bind (Return x) f = f x"

datatype check_sat_result = sat | unsat | unknown

text \<open>
  The collaborators that are not part of \<^verbatim>\<open>graph.py\<close>: the machine \<^verbatim>\<open>cls.wasmVM\<close>
  (emulator, signatures, initial state, function names), the Z3 call
  \<^verbatim>\<open>Solver().add(*constraints); check()\<close>, and whether the format string of
  \<^verbatim>\<open>show_state_info\<close> evaluates on a state (it reads the attribute \<^verbatim>\<open>pc\<close>, which
  \<^verbatim>\<open>vmstate.py\<close> does not define). Each call either returns or raises; the emulator is
  taken as a function of its arguments that leaves the states it is given untouched.

  Python states are objects, and two references may be to one object. A state value here
  stands for an object; \<open>object_id\<close> gives the identity of the object a value stands for.
  It is kept with the fields that the emulator manages, which hands on the object it was
  given or makes a new one.
\<close>

record ('c, 'm, 'i, 'o) externals =
  emulate_basic_block ::
    "('c, 'm) item list \<Rightarrow> bool \<Rightarrow> 'i list \<Rightarrow> error + bool \<times> ('c, 'm) item list"
  solver_check :: "'c list \<Rightarrow> error + check_sat_result"
  get_signature :: "string \<Rightarrow> error + string \<times> string"
  init_state :: "string \<Rightarrow> string \<Rightarrow> string \<Rightarrow> error + ('c, 'm) WasmVMstate_scheme \<times> bool"
  get_function_name :: "string \<Rightarrow> error + string"
  formattable :: "('c, 'm) WasmVMstate_scheme \<Rightarrow> bool"
  object_id :: "('c, 'm) WasmVMstate_scheme \<Rightarrow> 'o"

text \<open>
  What a call of \<^verbatim>\<open>visit\<close> can change: the visit counters \<^verbatim>\<open>vis\<close> (a
  \<^verbatim>\<open>defaultdict(int)\<close>), the lines still to be read from standard input, and a ghost
  log of the external calls made so far (each emulator call with its block and input
  states, each solver query with its constraint list). No branch reads the log.
\<close>

datatype ('c, 'm) event =
  Emulated blk "('c, 'm) item list"
| Checked "'c list"

record ('c, 'm) vstate =
  vis :: "blk \<Rightarrow> int"
  stdin :: "string list"
  events :: "('c, 'm) event list"

section \<open>The interactive prompt \<^verbatim>\<open>Graph.ask_user_input\<close>\<close>

text \<open>
  Python's \<^verbatim>\<open>xs[i]\<close> on a list: a negative index counts from the end, an index out of
  range raises \<^verbatim>\<open>IndexError\<close> (\<open>None\<close>).
\<close>

definition py_index :: "'a list \<Rightarrow> int \<Rightarrow> 'a option" where
  "py_index xs i =
     (let n = int (length xs); j = (if i < 0 then n + i else i)
      in if 0 \<le> j \<and> j < n then Some (xs ! nat j) else None)"

text \<open>\<^verbatim>\<open>s.split(' ')\<close>: the pieces between single spaces, empty pieces included.\<close>

fun py_split :: "char \<Rightarrow> string \<Rightarrow> string list" where
  "py_split sep [] = [[]]"
| "py_split sep (c # cs) =
     (if c = sep then [] # py_split sep cs
      else (case py_split sep cs of [] \<Rightarrow> [[c]] | p # ps \<Rightarrow> (c # p) # ps))"

text \<open>
  \<^verbatim>\<open>int(s)\<close> on a string of code points below 256 (a \<open>char\<close> is one code point).
  Surrounding whitespace is dropped: tab, line feed, vertical tab, form feed, carriage
  return and space, and of the code points from 127 on those that Unicode counts as
  whitespace, 0x85 and 0xA0; the separators 28 to 31 are not dropped. One sign may lead,
  and the digits \<^verbatim>\<open>0\<close> to \<^verbatim>\<open>9\<close> may be separated by single underscores. A number of
  more than 4300 digits is refused (\<^verbatim>\<open>sys.int_info.default_max_str_digits\<close>). \<open>None\<close>
  is the \<^verbatim>\<open>ValueError\<close>.
\<close>

definition py_isspace :: "char \<Rightarrow> bool" where
  "py_isspace c = ((of_char c :: nat) \<in> {9, 10, 11, 12, 13, 32, 133, 160})"

definition int_max_str_digits :: nat where
  "int_max_str_digits = 4300"

definition py_isdigit :: "char \<Rightarrow> bool" where
  "py_isdigit c = (48 \<le> (of_char c :: nat) \<and> (of_char c :: nat) \<le> 57)"

fun py_digits :: "nat \<Rightarrow> string \<Rightarrow> nat option" where
  "py_digits acc [] = Some acc"
| "py_digits acc [c] = (if py_isdigit c then Some (10 * acc + (of_char c - 48)) else None)"
| "py_digits acc (c # d # cs) =
     (if py_isdigit c then py_digits (10 * acc + (of_char c - 48)) (d # cs)
      else if c = CHR ''_'' \<and> py_isdigit d then py_digits acc (d # cs)
      else None)"

definition py_int :: "string \<Rightarrow> int option" where
  "py_int s =
     (let t = rev (dropWhile py_isspace (rev (dropWhile py_isspace s)));
          (neg, body) = (case t of
                           c # cs \<Rightarrow> if c = CHR ''-'' then (True, cs)
                                     else if c = CHR ''+'' then (False, cs)
                                     else (False, t)
                         | [] \<Rightarrow> (False, t))
      in case body of
           [] \<Rightarrow> None
         | c # cs \<Rightarrow>
             if py_isdigit c \<and> length (filter py_isdigit body) \<le> int_max_str_digits
             then map_option (\<lambda>n. if neg then - int n else int n) (py_digits 0 body)
             else None)"

definition branch_mapping :: "(string \<times> edge_type) list" where
  "branch_mapping =
     [(''T'', conditional_true), (''F'', conditional_false),
      (''f'', fallthrough), (''u'', unconditional)]"

text \<open>What \<^verbatim>\<open>ask_user_input\<close> returns: a state index or an edge type.\<close>

datatype choice = StateIndex int | Branch edge_type

text \<open>
  \<^verbatim>\<open>show_state_info\<close> indexes the list and formats every state of the chosen item;
  \<^verbatim>\<open>show_branch_info\<close> starts with \<^verbatim>\<open>branches[branch]\<close>, where \<^verbatim>\<open>visit\<close> passes the
  list \<^verbatim>\<open>avail_br\<close> and \<^verbatim>\<open>branch\<close> is a string, which is a \<^verbatim>\<open>TypeError\<close>.
\<close>

definition show_state_info ::
  "('c, 'm, 'i, 'o) externals \<Rightarrow> choice \<Rightarrow> ('c, 'm) item list \<Rightarrow> error + unit" where
  "show_state_info ext state_index states =
     (case state_index of
        Branch _ \<Rightarrow> Inl TypeError
      | StateIndex i \<Rightarrow>
          (case py_index states i of
             None \<Rightarrow> Inl IndexError
           | Some (StateItem s) \<Rightarrow> if formattable ext s then Inr () else Inl AttributeError
           | Some (DictItem d) \<Rightarrow>
               if list_all (formattable ext) (map snd d) then Inr () else Inl AttributeError))"

definition show_branch_info ::
  "choice \<Rightarrow> edge_type list \<Rightarrow> ('c, 'm) item option \<Rightarrow> error + unit" where
  "show_branch_info branch branches state = Inl TypeError"

text \<open>
  The body of the \<^verbatim>\<open>try\<close> up to the test of \<^verbatim>\<open>ask_for_info\<close>: the choice and whether
  information was asked for, or the exception raised on the way.
\<close>

definition parse_input :: "bool \<Rightarrow> string \<Rightarrow> error + choice \<times> bool" where
  "parse_input isbr user_input =
     (case (if CHR '' '' \<in> set user_input
            then (case py_split (CHR '' '') user_input of
                    [concerned_variable, ask_for_info] \<Rightarrow>
                      if ask_for_info = ''i'' then Inr (concerned_variable, True)
                      else Inl AssertionError
                  | _ \<Rightarrow> Inl ValueError)
            else Inr (user_input, False)) of
        Inl e \<Rightarrow> Inl e
      | Inr (concerned_variable, ask_for_info) \<Rightarrow>
          if isbr
          then (case map_of branch_mapping user_input of
                  None \<Rightarrow> Inl KeyError
                | Some ty \<Rightarrow> Inr (Branch ty, ask_for_info))
          else (case py_int concerned_variable of
                  None \<Rightarrow> Inl ValueError
                | Some n \<Rightarrow> Inr (StateIndex (n - 1), ask_for_info)))"

text \<open>
  The prompt loop. Each round reads one line; \<^verbatim>\<open>input()\<close> stands outside the
  \<^verbatim>\<open>try\<close> and raises \<^verbatim>\<open>EOFError\<close> at the end of the input. The handler
  \<^verbatim>\<open>except: raise("[!] Valid input is needed")\<close> raises a string, which Python
  answers with a \<^verbatim>\<open>TypeError\<close>. The result comes with the lines not read.
\<close>

fun ask_user_input ::
  "('c, 'm, 'i, 'o) externals \<Rightarrow> ('c, 'm) item list \<Rightarrow> bool \<Rightarrow> edge_type list \<Rightarrow>
   ('c, 'm) item option \<Rightarrow> string list \<Rightarrow> (error + choice) \<times> string list" where
  "ask_user_input ext emul_states isbr branches state_item [] = (Inl EOFError, [])"
| "ask_user_input ext emul_states isbr branches state_item (user_input # rest) =
     (case parse_input isbr user_input of
        Inl e \<Rightarrow> (Inl TypeError, rest)
      | Inr (concerned_variable, ask_for_info) \<Rightarrow>
          if \<not> ask_for_info then (Inr concerned_variable, rest)
          else (case (if isbr then show_branch_info concerned_variable branches state_item
                      else show_state_info ext concerned_variable emul_states) of
                  Inl e \<Rightarrow> (Inl TypeError, rest)
                | Inr _ \<Rightarrow> ask_user_input ext emul_states isbr branches state_item rest))"


section \<open>The traversal \<^verbatim>\<open>Graph.visit\<close>\<close>

text \<open>
  Lines 173 to 181, for one edge type: whether \<^verbatim>\<open>avail_br.append(type)\<close> is reached.
  The solver is asked only for a conditional edge type of a per-branch dictionary that
  has an entry for the type, with the constraints of that entry; the type is kept when
  the answer is \<^verbatim>\<open>sat\<close>.
\<close>

definition branch_available ::
  "('c, 'm, 'i, 'o) externals \<Rightarrow> ('c, 'm) item \<Rightarrow> edge_type \<Rightarrow> ('c, 'm) vstate \<Rightarrow>
   (bool \<times> ('c, 'm) vstate) result" where
  "branch_available ext state_item ty st =
     (case state_item of
        StateItem s \<Rightarrow> Return (True, st)
      | DictItem d \<Rightarrow>
          if ty = conditional_true \<or> ty = conditional_false
          then (case map_of d ty of
                  None \<Rightarrow> Return (False, st)
                | Some state \<Rightarrow>
                    (case solver_check ext (constraints state) of
                       Inl e \<Rightarrow> Raise e
                     | Inr verdict \<Rightarrow>
                         Return (verdict = sat,
                                 st\<lparr>events := events st @ [Checked (constraints state)]\<rparr>)))
          else Return (True, st))"

text \<open>The loop \<^verbatim>\<open>for type in branches\<close> that builds \<^verbatim>\<open>avail_br\<close>.\<close>

fun avail_br_loop ::
  "('c, 'm, 'i, 'o) externals \<Rightarrow> ('c, 'm) item \<Rightarrow> edge_type list \<Rightarrow> edge_type list \<Rightarrow>
   ('c, 'm) vstate \<Rightarrow> (edge_type list \<times> ('c, 'm) vstate) result" where
  "avail_br_loop ext state_item [] avail_br st = Return (avail_br, st)"
| "avail_br_loop ext state_item (ty # rest) avail_br st =
     bind (branch_available ext state_item ty st)
       (\<lambda>(keep, st'). avail_br_loop ext state_item rest
                         (if keep then avail_br @ [ty] else avail_br) st')"

text \<open>
  The recursive calls of \<^verbatim>\<open>visit\<close> pass \<^verbatim>\<open>has_ret\<close>, \<^verbatim>\<open>circles\<close> and \<^verbatim>\<open>guided\<close> on
  unchanged; \<open>rec states blk branches st\<close> stands for such a call.

  The loop \<^verbatim>\<open>for i in range(cls.loop_maximum_rounds)\<close> of line 196.
\<close>

type_synonym ('c, 'm) visit_call =
  "('c, 'm) item list \<Rightarrow> blk \<Rightarrow> edge_type list option \<Rightarrow> ('c, 'm) vstate \<Rightarrow>
   (('c, 'm) item list \<times> ('c, 'm) vstate) result"

fun loop_rounds ::
  "('c, 'm) visit_call \<Rightarrow> blk \<Rightarrow> nat \<Rightarrow> ('c, 'm) item list \<Rightarrow> ('c, 'm) vstate \<Rightarrow>
   (('c, 'm) item list \<times> ('c, 'm) vstate) result" where
  "loop_rounds rec nxt_blk 0 enter_states st = Return (enter_states, st)"
| "loop_rounds rec nxt_blk (Suc i) enter_states st =
     bind (rec enter_states nxt_blk (Some [conditional_false]) st)
       (\<lambda>(enter_states', st'). loop_rounds rec nxt_blk i enter_states' st')"

text \<open>
  Lines 191 to 203, for one edge type of \<^verbatim>\<open>avail_br\<close>: the states this edge adds to
  \<^verbatim>\<open>final_states\<close>.
\<close>

definition take_branch ::
  "('c, 'm) visit_call \<Rightarrow> 'i Graph \<Rightarrow> blk set \<Rightarrow> bool \<Rightarrow> blk \<Rightarrow> ('c, 'm) item \<Rightarrow>
   edge_type \<Rightarrow> ('c, 'm) vstate \<Rightarrow> (('c, 'm) item list \<times> ('c, 'm) vstate) result" where
  "take_branch rec g circles guided b state_item ty st =
     (case map_of (out_edges g b) ty of
        None \<Rightarrow> Raise KeyError
      | Some nxt_blk \<Rightarrow>
          (case (case state_item of DictItem d \<Rightarrow> map_of d ty | StateItem s \<Rightarrow> Some s) of
             None \<Rightarrow> Raise KeyError
           | Some state \<Rightarrow>
               if \<not> guided then
                 if nxt_blk \<in> circles then
                   bind (loop_rounds rec nxt_blk loop_maximum_rounds [StateItem state] st)
                     (\<lambda>(enter_states, st').
                        rec enter_states nxt_blk (Some [conditional_true]) st')
                 else rec [StateItem state] nxt_blk None st
               else rec [StateItem state] nxt_blk None st))"

text \<open>The loop \<^verbatim>\<open>for type in avail_br\<close>, extending \<^verbatim>\<open>final_states\<close>.\<close>

fun branches_loop ::
  "(edge_type \<Rightarrow> ('c, 'm) vstate \<Rightarrow> (('c, 'm) item list \<times> ('c, 'm) vstate) result) \<Rightarrow>
   edge_type list \<Rightarrow> ('c, 'm) item list \<Rightarrow> ('c, 'm) vstate \<Rightarrow>
   (('c, 'm) item list \<times> ('c, 'm) vstate) result" where
  "branches_loop f [] final_states st = Return (final_states, st)"
| "branches_loop f (ty # rest) final_states st =
     bind (f ty st) (\<lambda>(out, st'). branches_loop f rest (final_states @ out) st')"

text \<open>
  The body of \<^verbatim>\<open>for state_item in emul_states\<close> (lines 170 to 203). In guided mode the
  operator's answer replaces \<^verbatim>\<open>avail_br\<close>, whatever the filter had kept.
\<close>

definition visit_state_item ::
  "('c, 'm) visit_call \<Rightarrow> ('c, 'm, 'i, 'o) externals \<Rightarrow> 'i Graph \<Rightarrow> blk set \<Rightarrow> bool \<Rightarrow> blk \<Rightarrow>
   edge_type list option \<Rightarrow> ('c, 'm) item list \<Rightarrow> ('c, 'm) item \<Rightarrow> ('c, 'm) item list \<Rightarrow>
   ('c, 'm) vstate \<Rightarrow> (('c, 'm) item list \<times> ('c, 'm) vstate) result" where
  "visit_state_item rec ext g circles guided b branches emul_states state_item final_states st =
     bind (avail_br_loop ext state_item
             (case branches of None \<Rightarrow> map fst (out_edges g b) | Some bs \<Rightarrow> bs) [] st)
       (\<lambda>(avail_br, st1).
          bind (if guided
                then (case ask_user_input ext emul_states True avail_br (Some state_item)
                             (stdin st1) of
                        (Inl e, rest) \<Rightarrow> Raise e
                      | (Inr (Branch ty), rest) \<Rightarrow> Return ([ty], st1\<lparr>stdin := rest\<rparr>)
                      | (Inr (StateIndex i), rest) \<Rightarrow> Raise KeyError)
                else Return (avail_br, st1))
            (\<lambda>(avail_br', st2).
               branches_loop (take_branch rec g circles guided b state_item)
                 avail_br' final_states st2))"

fun states_loop ::
  "(('c, 'm) item \<Rightarrow> ('c, 'm) item list \<Rightarrow> ('c, 'm) vstate \<Rightarrow>
    (('c, 'm) item list \<times> ('c, 'm) vstate) result) \<Rightarrow>
   ('c, 'm) item list \<Rightarrow> ('c, 'm) item list \<Rightarrow> ('c, 'm) vstate \<Rightarrow>
   (('c, 'm) item list \<times> ('c, 'm) vstate) result" where
  "states_loop f [] final_states st = Return (final_states, st)"
| "states_loop f (state_item # rest) final_states st =
     bind (f state_item final_states st)
       (\<lambda>(final_states', st'). states_loop f rest final_states' st')"

text \<open>
  Lines 157 to 203: what is gathered in \<^verbatim>\<open>final_states\<close>, from the emulator's states.
  In guided mode the operator first picks one of them.
\<close>

definition explore ::
  "('c, 'm) visit_call \<Rightarrow> ('c, 'm, 'i, 'o) externals \<Rightarrow> 'i Graph \<Rightarrow> blk set \<Rightarrow> bool \<Rightarrow> blk \<Rightarrow>
   edge_type list option \<Rightarrow> ('c, 'm) item list \<Rightarrow> ('c, 'm) vstate \<Rightarrow>
   (('c, 'm) item list \<times> ('c, 'm) vstate) result" where
  "explore rec ext g circles guided b branches emul_states st =
     bind (if guided
           then (case ask_user_input ext emul_states False [] None (stdin st) of
                   (Inl e, rest) \<Rightarrow> Raise e
                 | (Inr (Branch ty), rest) \<Rightarrow> Raise TypeError
                 | (Inr (StateIndex state_index), rest) \<Rightarrow>
                     (case py_index emul_states state_index of
                        None \<Rightarrow> Raise IndexError
                      | Some state_item \<Rightarrow> Return ([state_item], st\<lparr>stdin := rest\<rparr>)))
           else Return (emul_states, st))
       (\<lambda>(emul_states', st').
          states_loop (visit_state_item rec ext g circles guided b branches emul_states')
            emul_states' [] st')"

text \<open>The body of \<^verbatim>\<open>visit\<close>, lines 150 to 205.\<close>

definition visit_body ::
  "('c, 'm) visit_call \<Rightarrow> ('c, 'm, 'i, 'o) externals \<Rightarrow> 'i Graph \<Rightarrow> ('c, 'm) item list \<Rightarrow> bool \<Rightarrow>
   blk \<Rightarrow> blk set \<Rightarrow> bool \<Rightarrow> edge_type list option \<Rightarrow> ('c, 'm) vstate \<Rightarrow>
   (('c, 'm) item list \<times> ('c, 'm) vstate) result" where
  "visit_body rec ext g states has_ret b circles guided branches st =
     (if \<not> guided \<and> vis st b > 0 then Return (states, st)
      else
        case map_of (bb_to_instructions g) b of
          None \<Rightarrow> Raise KeyError
        | Some instructions \<Rightarrow>
            (case emulate_basic_block ext states has_ret instructions of
               Inl e \<Rightarrow> Raise e
             | Inr (halt, emul_states) \<Rightarrow>
                 let st1 = st\<lparr>events := events st @ [Emulated b states]\<rparr> in
                 if halt \<or> length (out_edges g b) = 0 then Return (emul_states, st1)
                 else
                   bind (explore rec ext g circles guided b branches emul_states
                           (st1\<lparr>vis := (vis st1)(b := vis st1 b + 1)\<rparr>))
                     (\<lambda>(final_states, st2).
                        Return (if length final_states > 0 then final_states else states,
                                st2\<lparr>vis := (vis st2)(b := vis st2 b - 1)\<rparr>))))"

text \<open>
  \<^verbatim>\<open>visit\<close> with the depth of the call stack as fuel: \<open>visit n\<close> may nest \<open>n\<close> calls.
\<close>

fun visit ::
  "nat \<Rightarrow> ('c, 'm, 'i, 'o) externals \<Rightarrow> 'i Graph \<Rightarrow> ('c, 'm) item list \<Rightarrow> bool \<Rightarrow> blk \<Rightarrow>
   blk set \<Rightarrow> bool \<Rightarrow> edge_type list option \<Rightarrow> ('c, 'm) vstate \<Rightarrow>
   (('c, 'm) item list \<times> ('c, 'm) vstate) result" where
  "visit 0 ext g states has_ret b circles guided branches st = OutOfFuel"
| "visit (Suc n) ext g states has_ret b circles guided branches st =
     visit_body (\<lambda>states' b' branches' st'.
                   visit n ext g states' has_ret b' circles guided branches' st')
       ext g states has_ret b circles guided branches st"

section \<open>\<^verbatim>\<open>Graph.traverse_one\<close> and \<^verbatim>\<open>Graph.traverse\<close>\<close>

definition lift :: "error + 'a \<Rightarrow> 'a result" where
  "lift r = (case r of Inl e \<Rightarrow> Raise e | Inr x \<Rightarrow> Return x)"

text \<open>
  Line 136, \<^verbatim>\<open>state.current_func_name = caller_func_name\<close>, writes into the object
  \<^verbatim>\<open>state\<close>. Where that object sits in the list \<^verbatim>\<open>visit\<close> returned, as a state or
  as a value of a per-branch dictionary, the returned list shows the caller's name.
\<close>

definition write_back ::
  "('c, 'm, 'i, 'o) externals \<Rightarrow> ('c, 'm) WasmVMstate_scheme \<Rightarrow> string \<Rightarrow>
   ('c, 'm) WasmVMstate_scheme \<Rightarrow> ('c, 'm) WasmVMstate_scheme" where
  "write_back ext state caller_func_name s =
     (if object_id ext s = object_id ext state
      then s\<lparr>current_func_name := caller_func_name\<rparr> else s)"

fun write_back_item ::
  "('c, 'm, 'i, 'o) externals \<Rightarrow> ('c, 'm) WasmVMstate_scheme \<Rightarrow> string \<Rightarrow>
   ('c, 'm) item \<Rightarrow> ('c, 'm) item" where
  "write_back_item ext state caller_func_name (StateItem s) =
     StateItem (write_back ext state caller_func_name s)"
| "write_back_item ext state caller_func_name (DictItem d) =
     DictItem (map (\<lambda>(ty, s). (ty, write_back ext state caller_func_name s)) d)"

text \<open>
  \<^verbatim>\<open>traverse_one\<close> takes the function and, when called for a callee, the caller's state
  and \<^verbatim>\<open>has_ret\<close>. Its counters and cycle set are local variables: both are built
  before \<^verbatim>\<open>pre\<close>, and the counters once more before \<^verbatim>\<open>visit\<close>. What outlives the call
  are the lines left on standard input and the log.
\<close>

definition traverse_one ::
  "nat \<Rightarrow> ('c, 'm, 'i, 'o) externals \<Rightarrow> 'i Graph \<Rightarrow> string \<Rightarrow>
   (('c, 'm) WasmVMstate_scheme \<times> bool) option \<Rightarrow> string list \<times> ('c, 'm) event list \<Rightarrow>
   (('c, 'm) item list \<times> string list \<times> ('c, 'm) event list) result" where
  "traverse_one n ext g func state io =
     bind (lift (get_signature ext func)) (\<lambda>(param_str, return_str).
     bind (case state of
             None \<Rightarrow> lift (init_state ext func param_str return_str)
           | Some given \<Rightarrow> Return given) (\<lambda>(state, has_ret).
     bind (lift (get_function_name ext func)) (\<lambda>name.
       case map_of (func_to_bbs g) func of
         None \<Rightarrow> Raise KeyError
       | Some entry_func_bbs \<Rightarrow>
           (case filter (\<lambda>bb. drop (length bb - 2) bb = ''_0'') entry_func_bbs of
              [] \<Rightarrow> Raise IndexError
            | entry_bb # _ \<Rightarrow>
                (case pre n g entry_bb (no_counters, {}, []) of
                   None \<Rightarrow> OutOfFuel
                 | Some (vis_pre, circles, calls) \<Rightarrow>
                     bind (visit n ext g [StateItem (state\<lparr>current_func_name := name\<rparr>)]
                             has_ret entry_bb circles (manual_guide g) None
                             \<lparr>vis = no_counters, stdin = fst io, events = snd io\<rparr>)
                       (\<lambda>(final_states, st).
                          Return (map (write_back_item ext state (current_func_name state))
                                    final_states,
                                  stdin st, events st)))))))"

text \<open>
  \<^verbatim>\<open>traverse\<close>: one \<^verbatim>\<open>traverse_one\<close> per entry function, stored under the function's
  name in \<^verbatim>\<open>self.final_states\<close>.
\<close>

fun traverse ::
  "nat \<Rightarrow> ('c, 'm, 'i, 'o) externals \<Rightarrow> 'i Graph \<Rightarrow> string list \<Rightarrow>
   (string \<times> ('c, 'm) item list option) list \<Rightarrow> string list \<times> ('c, 'm) event list \<Rightarrow>
   ((string \<times> ('c, 'm) item list option) list \<times> string list \<times> ('c, 'm) event list) result"
  where
  "traverse n ext g [] final_states io = Return (final_states, io)"
| "traverse n ext g (entry_func # entries) final_states io =
     bind (traverse_one n ext g entry_func None io) (\<lambda>(states, io').
       traverse n ext g entries
         (map (\<lambda>(f, old). if f = entry_func then (f, Some states) else (f, old)) final_states)
         io')"

section \<open>Notions the properties are stated with\<close>

text \<open>
  The edges that leave a block whose number of outgoing edges is not two. A cycle of the
  control-flow graph none of whose blocks has exactly two outgoing edges is a cycle of
  this relation, and conversely.
\<close>

definition nonbranch_edges :: "'i Graph \<Rightarrow> (blk \<times> blk) set" where
  "nonbranch_edges g =
     {(b, s). length (out_edges g b) \<noteq> 2 \<and> s \<in> snd ` set (out_edges g b)}"

text \<open>All edges of the graph.\<close>

definition cfg_edges :: "'i Graph \<Rightarrow> (blk \<times> blk) set" where
  "cfg_edges g = {(b, s). s \<in> snd ` set (out_edges g b)}"

definition unmarked_branch :: "'i Graph \<Rightarrow> (blk \<Rightarrow> int) \<Rightarrow> blk set" where
  "unmarked_branch g v = {b. length (out_edges g b) = 2 \<and> v b \<noteq> 1}"

text \<open>The counters after \<^verbatim>\<open>pre\<close> was invoked on the blocks \<open>new\<close>.\<close>

definition mark_calls :: "blk list \<Rightarrow> (blk \<Rightarrow> int) \<Rightarrow> (blk \<Rightarrow> int)" where
  "mark_calls new v = (\<lambda>x. if x \<in> set new then 1 else v x)"

text \<open>
  The blocks with two outgoing edges that the invocations \<open>new\<close> reach while marked:
  marked at the start and reached once, or reached twice.
\<close>

definition headers_hit :: "'i Graph \<Rightarrow> (blk \<Rightarrow> int) \<Rightarrow> blk list \<Rightarrow> blk set" where
  "headers_hit g v new =
     {x. length (out_edges g x) = 2 \<and>
         (if v x = 1 then x \<in> set new else 2 \<le> count_list new x)}"

definition pre_spec :: "'i Graph \<Rightarrow> pre_state \<Rightarrow> pre_state \<Rightarrow> bool" where
  "pre_spec g st st' =
     (case st of (v, c, k) \<Rightarrow> case st' of (v', c', k') \<Rightarrow>
        \<exists>new. k' = k @ new \<and> v' = mark_calls new v \<and> c' = c \<union> headers_hit g v new)"

text \<open>
  What every returning call of \<^verbatim>\<open>visit\<close> does to its surroundings: the counters are as
  before, and the log has grown at its end.
\<close>

definition frame :: "('c, 'm) vstate \<Rightarrow> ('c, 'm) vstate \<Rightarrow> bool" where
  "frame st st' = (vis st' = vis st \<and> (\<exists>new. events st' = events st @ new))"

definition frame_call :: "('c, 'm) visit_call \<Rightarrow> bool" where
  "frame_call rec =
     (\<forall>states b branches st out st'.
        rec states b branches st = Return (out, st') \<longrightarrow> frame st st')"

text \<open>
  Recursive calls into one block, one per branch set of the list, each fed the states
  that the call before it returned.
\<close>

fun visit_chain ::
  "('c, 'm) visit_call \<Rightarrow> blk \<Rightarrow> edge_type list option list \<Rightarrow> ('c, 'm) item list \<Rightarrow>
   ('c, 'm) vstate \<Rightarrow> (('c, 'm) item list \<times> ('c, 'm) vstate) result" where
  "visit_chain rec b [] states st = Return (states, st)"
| "visit_chain rec b (branches # later) states st =
     bind (rec states b branches st) (\<lambda>(states', st'). visit_chain rec b later states' st')"

text \<open>
  What an unguided \<^verbatim>\<open>visit\<close> does with the states of the emulator, written as a list
  of steps that are carried out one after the other: \<open>Ask\<close> puts a constraint list to
  the solver, \<open>Follow\<close> goes along the edge of a type with the state for that edge, if
  there is one.

  For a per-branch dictionary, the solver is asked about the conditional edge types the
  dictionary has a state for, with the constraints of that state (\<open>asked\<close>), and the
  edge types that are then followed are those that are not conditional, and the
  conditional ones that have a state whose constraints the solver finds \<^verbatim>\<open>sat\<close>
  (\<open>kept_types\<close>). For a state that is no dictionary every edge type is followed and
  nothing is asked.
\<close>

datatype ('c, 'm) step =
  Ask "'c list"
| Follow edge_type "('c, 'm) WasmVMstate_scheme option"

definition asked ::
  "(('c, 'm) WasmVMstate_scheme) edge_dict \<Rightarrow> edge_type list \<Rightarrow> 'c list list" where
  "asked d tys =
     concat (map (\<lambda>ty. if ty = conditional_true \<or> ty = conditional_false
                        then (case map_of d ty of None \<Rightarrow> [] | Some s \<Rightarrow> [constraints s])
                        else []) tys)"

definition kept_types ::
  "('c, 'm, 'i, 'o) externals \<Rightarrow> (('c, 'm) WasmVMstate_scheme) edge_dict \<Rightarrow> edge_type list \<Rightarrow>
   edge_type list" where
  "kept_types ext d tys =
     filter (\<lambda>ty. if ty = conditional_true \<or> ty = conditional_false
                   then (case map_of d ty of
                           None \<Rightarrow> False
                         | Some s \<Rightarrow> solver_check ext (constraints s) = Inr sat)
                   else True) tys"

fun item_steps ::
  "('c, 'm, 'i, 'o) externals \<Rightarrow> edge_type list \<Rightarrow> ('c, 'm) item \<Rightarrow> ('c, 'm) step list" where
  "item_steps ext tys (StateItem s) = map (\<lambda>ty. Follow ty (Some s)) tys"
| "item_steps ext tys (DictItem d) =
     map Ask (asked d tys) @ map (\<lambda>ty. Follow ty (map_of d ty)) (kept_types ext d tys)"

text \<open>
  The branch sets of the recursive calls along an edge in unguided mode: for a
  destination in the set of cycle headers \<^verbatim>\<open>loop_maximum_rounds\<close> times
  \<^verbatim>\<open>['conditional_false']\<close> and then once \<^verbatim>\<open>['conditional_true']\<close>, for any other
  destination one call without a forced branch set.
\<close>

definition branch_sets :: "blk set \<Rightarrow> blk \<Rightarrow> edge_type list option list" where
  "branch_sets circles nxt_blk =
     (if nxt_blk \<in> circles
      then replicate loop_maximum_rounds (Some [conditional_false]) @ [Some [conditional_true]]
      else [None])"

text \<open>
  Carrying out the steps at block \<open>b\<close>: a solver call that raises ends them, an answer
  is logged and has no other effect here (it has decided which \<open>Follow\<close> steps there
  are); a \<open>Follow\<close> step looks up the destination of the edge and the state, calls
  \<^verbatim>\<open>visit\<close> on the destination once for each branch set, from the state of the edge and
  then from what the call before returned, and adds what the last call returns to the
  states gathered so far.
\<close>

fun run_steps ::
  "('c, 'm) visit_call \<Rightarrow> ('c, 'm, 'i, 'o) externals \<Rightarrow> 'i Graph \<Rightarrow> blk set \<Rightarrow> blk \<Rightarrow>
   ('c, 'm) step list \<Rightarrow> ('c, 'm) item list \<Rightarrow> ('c, 'm) vstate \<Rightarrow>
   (('c, 'm) item list \<times> ('c, 'm) vstate) result" where
  "run_steps rec ext g circles b [] gathered st = Return (gathered, st)"
| "run_steps rec ext g circles b (Ask cs # steps) gathered st =
     (case solver_check ext cs of
        Inl e \<Rightarrow> Raise e
      | Inr verdict \<Rightarrow>
          run_steps rec ext g circles b steps gathered (st\<lparr>events := events st @ [Checked cs]\<rparr>))"
| "run_steps rec ext g circles b (Follow ty state # steps) gathered st =
     (case map_of (out_edges g b) ty of
        None \<Rightarrow> Raise KeyError
      | Some nxt_blk \<Rightarrow>
          (case state of
             None \<Rightarrow> Raise KeyError
           | Some s \<Rightarrow>
               bind (visit_chain rec nxt_blk (branch_sets circles nxt_blk) [StateItem s] st)
                 (\<lambda>(out, st'). run_steps rec ext g circles b steps (gathered @ out) st')))"

text \<open>The recursive calls that a \<^verbatim>\<open>visit\<close> of call depth \<open>Suc n\<close> makes.\<close>

definition visit_at_depth ::
  "nat \<Rightarrow> ('c, 'm, 'i, 'o) externals \<Rightarrow> 'i Graph \<Rightarrow> bool \<Rightarrow> blk set \<Rightarrow> bool \<Rightarrow>
   ('c, 'm) visit_call" where
  "visit_at_depth n ext g has_ret circles guided =
     (\<lambda>states b branches st. visit n ext g states has_ret b circles guided branches st)"

text \<open>\<^verbatim>\<open>sep.join(pieces)\<close>, the inverse of \<^verbatim>\<open>split\<close>.\<close>

fun py_join :: "char \<Rightarrow> string list \<Rightarrow> string" where
  "py_join sep [] = []"
| "py_join sep [p] = p"
| "py_join sep (p # q # ps) = p @ sep # py_join sep (q # ps)"

text \<open>
  Facts about the invocations \<open>new\<close> of a returning run of \<^verbatim>\<open>pre\<close> that started with the
  counters \<open>v\<close>: each invocation returned, and a block that was expanded (it was not
  marked at the start, or its number of outgoing edges is not two) had \<^verbatim>\<open>pre\<close> invoked
  on all its successors.
\<close>

definition returns :: "'i Graph \<Rightarrow> blk \<Rightarrow> bool" where
  "returns g x = (\<exists>m st1 st2. pre m g x st1 = Some st2)"

definition closed_calls :: "'i Graph \<Rightarrow> (blk \<Rightarrow> int) \<Rightarrow> blk list \<Rightarrow> bool" where
  "closed_calls g v new =
     (\<forall>x \<in> set new. returns g x \<and>
        ((v x \<noteq> 1 \<or> length (out_edges g x) \<noteq> 2) \<longrightarrow> snd ` set (out_edges g x) \<subseteq> set new))"

definition pre_inv :: "'i Graph \<Rightarrow> blk list \<Rightarrow> pre_state \<Rightarrow> pre_state \<Rightarrow> bool" where
  "pre_inv g bs st st' =
     (case st of (v, c, k) \<Rightarrow> case st' of (v', c', k') \<Rightarrow>
        \<exists>new. k' = k @ new \<and> v' = mark_calls new v \<and> set bs \<subseteq> set new \<and> closed_calls g v new)"

text \<open>
  Counters are consistent with the graph when only blocks with outgoing edges have a
  positive counter. \<open>visit_asserting\<close> is \<^verbatim>\<open>visit\<close> with the assertion of this
  consistency added at the entry of every recursive call.
\<close>

definition counters_ok :: "'i Graph \<Rightarrow> (blk \<Rightarrow> int) \<Rightarrow> bool" where
  "counters_ok g v = (\<forall>x. 0 < v x \<longrightarrow> out_edges g x \<noteq> [])"

definition asserting :: "'i Graph \<Rightarrow> ('c, 'm) visit_call \<Rightarrow> ('c, 'm) visit_call" where
  "asserting g rec states b branches st =
     (if counters_ok g (vis st) then rec states b branches st else Raise AssertionError)"

fun visit_asserting ::
  "nat \<Rightarrow> ('c, 'm, 'i, 'o) externals \<Rightarrow> 'i Graph \<Rightarrow> ('c, 'm) item list \<Rightarrow> bool \<Rightarrow> blk \<Rightarrow>
   blk set \<Rightarrow> bool \<Rightarrow> edge_type list option \<Rightarrow> ('c, 'm) vstate \<Rightarrow>
   (('c, 'm) item list \<times> ('c, 'm) vstate) result" where
  "visit_asserting 0 ext g states has_ret b circles guided branches st = OutOfFuel"
| "visit_asserting (Suc n) ext g states has_ret b circles guided branches st =
     visit_body (asserting g (\<lambda>states' b' branches' st'.
                   visit_asserting n ext g states' has_ret b' circles guided branches' st'))
       ext g states has_ret b circles guided branches st"

definition agree_on ::
  "(blk \<Rightarrow> int) \<Rightarrow> ('c, 'm) visit_call \<Rightarrow> ('c, 'm) visit_call \<Rightarrow> bool" where
  "agree_on V rec rec' =
     (\<forall>states b branches st. vis st = V \<longrightarrow> rec states b branches st = rec' states b branches st)"

section \<open>Example graphs and collaborators\<close>

text \<open>A loop: a header with two conditional edges, a body that jumps back, an exit.\<close>

definition loop_cfg :: "nat Graph" where
  "loop_cfg =
     \<lparr>func_to_bbs = [(''f'', [''block_0_0'', ''block_0_1'', ''block_0_2''])],
      bb_to_instructions = [(''block_0_0'', [0]), (''block_0_1'', [1]), (''block_0_2'', [2])],
      bbs_graph =
        [(''block_0_0'', [(conditional_true, ''block_0_2''), (conditional_false, ''block_0_1'')]),
         (''block_0_1'', [(unconditional, ''block_0_0'')]),
         (''block_0_2'', [])],
      manual_guide = False\<rparr>"

text \<open>A single block whose unconditional edge targets itself.\<close>

definition self_loop_cfg :: "nat Graph" where
  "self_loop_cfg =
     \<lparr>func_to_bbs = [(''f'', [''block_0_0''])],
      bb_to_instructions = [(''block_0_0'', [0])],
      bbs_graph = [(''block_0_0'', [(unconditional, ''block_0_0'')])],
      manual_guide = False\<rparr>"

text \<open>
  A diamond without any cycle whose join block branches again: block 0 branches to
  blocks 1 and 2, both fall through to block 3, which branches to the exits 4 and 5.
\<close>

definition branching_join_cfg :: "nat Graph" where
  "branching_join_cfg =
     \<lparr>func_to_bbs = [(''f'', [''block_0_0''])],
      bb_to_instructions = [],
      bbs_graph =
        [(''block_0_0'', [(conditional_true, ''block_0_1''), (conditional_false, ''block_0_2'')]),
         (''block_0_1'', [(fallthrough, ''block_0_3'')]),
         (''block_0_2'', [(fallthrough, ''block_0_3'')]),
         (''block_0_3'', [(conditional_true, ''block_0_4''), (conditional_false, ''block_0_5'')]),
         (''block_0_4'', []),
         (''block_0_5'', [])],
      manual_guide = False\<rparr>"

text \<open>The position of a block of \<open>branching_join_cfg\<close> in a topological order.\<close>

definition join_rank :: "blk \<Rightarrow> nat" where
  "join_rank b =
     (if b = ''block_0_0'' then 0
      else if b = ''block_0_1'' \<or> b = ''block_0_2'' then 1
      else if b = ''block_0_3'' then 2
      else 3)"

text \<open>
  A diamond whose join block does not branch: block 0 branches to blocks 1 and 2, both
  fall through to block 3, which falls through to the exit 4.
\<close>

definition diamond_cfg :: "nat Graph" where
  "diamond_cfg =
     \<lparr>func_to_bbs = [(''f'', [''block_0_0'', ''block_0_1'', ''block_0_2'', ''block_0_3'',
                              ''block_0_4''])],
      bb_to_instructions =
        [(''block_0_0'', [0]), (''block_0_1'', [1]), (''block_0_2'', [2]), (''block_0_3'', [3]),
         (''block_0_4'', [4])],
      bbs_graph =
        [(''block_0_0'', [(conditional_true, ''block_0_1''), (conditional_false, ''block_0_2'')]),
         (''block_0_1'', [(fallthrough, ''block_0_3'')]),
         (''block_0_2'', [(fallthrough, ''block_0_3'')]),
         (''block_0_3'', [(fallthrough, ''block_0_4'')]),
         (''block_0_4'', [])],
      manual_guide = False\<rparr>"

text \<open>
  A state without constraints, and an emulator for the examples: a block whose
  instruction list is \<open>[0]\<close> ends in a conditional branch and turns each state into a
  dictionary, the state with constraint 1 added under \<open>conditional_true\<close> and with
  constraint 2 added under \<open>conditional_false\<close>; every other block leaves the states as
  they are. It never halts. The states of a fork are new objects, and an object is known by
  its constraints. The solver is a parameter of the example.
\<close>

definition s0 :: "nat WasmVMstate" where
  "s0 = \<lparr>constraints = [], current_func_name = ''f''\<rparr>"

fun fork_item :: "(nat, unit) item \<Rightarrow> (nat, unit) item" where
  "fork_item (StateItem s) =
     DictItem [(conditional_true, s\<lparr>constraints := constraints s @ [1]\<rparr>),
               (conditional_false, s\<lparr>constraints := constraints s @ [2]\<rparr>)]"
| "fork_item (DictItem d) = DictItem d"

definition example_ext ::
  "(nat list \<Rightarrow> error + check_sat_result) \<Rightarrow> (nat, unit, nat, nat list) externals" where
  "example_ext solver =
     \<lparr>emulate_basic_block =
        (\<lambda>states has_ret instructions.
           Inr (False, if instructions = [0] then map fork_item states else states)),
      solver_check = solver,
      get_signature = (\<lambda>func. Inr ('''', '''')),
      init_state = (\<lambda>func param_str return_str. Inr (s0, False)),
      get_function_name = (\<lambda>func. Inr func),
      formattable = (\<lambda>s. True),
      object_id = constraints\<rparr>"

definition always_sat :: "nat list \<Rightarrow> error + check_sat_result" where
  "always_sat cs = Inr sat"

definition always_unknown :: "nat list \<Rightarrow> error + check_sat_result" where
  "always_unknown cs = Inr unknown"

text \<open>A solver for which constraint 1 is contradictory.\<close>

definition refutes_1 :: "nat list \<Rightarrow> error + check_sat_result" where
  "refutes_1 cs = Inr (if 1 \<in> set cs then unsat else sat)"

definition fresh_vstate :: "(nat, unit) vstate" where
  "fresh_vstate = \<lparr>vis = no_counters, stdin = [], events = []\<rparr>"

text \<open>Nothing on standard input, nothing logged yet.\<close>

definition empty_io :: "string list \<times> (nat, unit) event list" where
  "empty_io = ([], [])"

text \<open>
  The state in which \<^verbatim>\<open>visit\<close> finds itself after block 0 of \<open>diamond_cfg\<close> was
  emulated and both of its branches were put to the solver.
\<close>

definition pruned_vstate :: "(nat, unit) vstate" where
  "pruned_vstate =
     \<lparr>vis = no_counters(''block_0_0'' := 1), stdin = [],
      events = [Emulated ''block_0_0'' [StateItem s0], Checked [1], Checked [2]]\<rparr>"

text \<open>A solver that raises.\<close>

definition always_raises :: "nat list \<Rightarrow> error + check_sat_result" where
  "always_raises cs = Inl Z3Exception"

text \<open>The dictionary the example emulator makes of \<open>s0\<close> at a branching block.\<close>

definition forked :: "(nat WasmVMstate) edge_dict" where
  "forked =
     [(conditional_true, s0\<lparr>constraints := [1]\<rparr>),
      (conditional_false, s0\<lparr>constraints := [2]\<rparr>)]"

text \<open>An entry block that falls through to a block whose unconditional edge targets itself.\<close>

definition spin_cfg :: "nat Graph" where
  "spin_cfg =
     \<lparr>func_to_bbs = [(''f'', [''block_0_0'', ''block_0_1''])],
      bb_to_instructions = [(''block_0_0'', [0]), (''block_0_1'', [1])],
      bbs_graph =
        [(''block_0_0'', [(fallthrough, ''block_0_1'')]),
         (''block_0_1'', [(unconditional, ''block_0_1'')])],
      manual_guide = False\<rparr>"



text \<open>An emulator that halts on every block.\<close>

definition halting_ext :: "(nat, unit, nat, nat list) externals" where
  "halting_ext =
     (example_ext always_sat)
       \<lparr>emulate_basic_block := (\<lambda>states has_ret instructions. Inr (True, states))\<rparr>"


section \<open>Properties of the cycle detector\<close>

lemma out_edges_dom: "out_edges g b \<noteq> [] \<Longrightarrow> b \<in> fst ` set (bbs_graph g)"
  by (auto simp: out_edges_def split: option.splits dest: map_of_SomeD intro: rev_image_eqI)

lemma finite_unmarked_branch: "finite (unmarked_branch g v)"
proof (rule finite_subset)
  show "unmarked_branch g v \<subseteq> fst ` set (bbs_graph g)"
  proof
    fix b assume "b \<in> unmarked_branch g v"
    then have "out_edges g b \<noteq> []" by (auto simp: unmarked_branch_def)
    then show "b \<in> fst ` set (bbs_graph g)" by (rule out_edges_dom)
  qed
qed simp

lemma finite_nonbranch_edges: "finite (nonbranch_edges g)"
proof (rule finite_subset)
  show "nonbranch_edges g \<subseteq> fst ` set (bbs_graph g) \<times> (\<Union>b \<in> fst ` set (bbs_graph g). snd ` set (out_edges g b))"
  proof
    fix p assume p: "p \<in> nonbranch_edges g"
    obtain b s where [simp]: "p = (b, s)" by (cases p)
    from p have s: "s \<in> snd ` set (out_edges g b)" by (simp add: nonbranch_edges_def)
    then have "out_edges g b \<noteq> []" by auto
    then have "b \<in> fst ` set (bbs_graph g)" by (rule out_edges_dom)
    with s show "p \<in> fst ` set (bbs_graph g) \<times> (\<Union>b \<in> fst ` set (bbs_graph g). snd ` set (out_edges g b))"
      by auto
  qed
qed simp

lemma pre_loop_mono:
  assumes "\<And>b st r. rec b st = Some r \<Longrightarrow> rec' b st = Some r"
  shows "pre_loop rec bs st = Some r \<Longrightarrow> pre_loop rec' bs st = Some r"
  by (induction bs arbitrary: st) (auto split: option.splits dest: assms)

lemma pre_mono_Suc: "pre n g b st = Some r \<Longrightarrow> pre (Suc n) g b st = Some r"
proof (induction n arbitrary: b st r)
  case 0
  then show ?case by simp
next
  case (Suc n)
  have step: "\<And>b st r. pre n g b st = Some r \<Longrightarrow> pre (Suc n) g b st = Some r"
    by (rule Suc.IH)
  from Suc.prems show ?case
    by (auto simp: pre_body_def split: prod.splits if_splits intro: pre_loop_mono [OF step])
qed

lemma pre_mono: "n \<le> m \<Longrightarrow> pre n g b st = Some r \<Longrightarrow> pre m g b st = Some r"
  by (induction m) (auto simp: le_Suc_eq dest: pre_mono_Suc simp del: pre.simps)

lemma pre_loop_marks:
  assumes "\<And>b st st'. rec b st = Some st' \<Longrightarrow> (\<forall>x. fst st x = 1 \<longrightarrow> fst st' x = 1)"
  shows "pre_loop rec bs st = Some st' \<Longrightarrow> fst st x = 1 \<Longrightarrow> fst st' x = 1"
  by (induction bs arbitrary: st) (auto split: option.splits dest: assms)

lemma pre_marks: "pre n g b st = Some st' \<Longrightarrow> fst st x = 1 \<Longrightarrow> fst st' x = 1"
proof (induction n arbitrary: b st st' x)
  case 0
  then show ?case by simp
next
  case (Suc n)
  have step: "\<And>b st st'. pre n g b st = Some st' \<Longrightarrow> (\<forall>x. fst st x = 1 \<longrightarrow> fst st' x = 1)"
    using Suc.IH by blast
  obtain v c k where st: "st = (v, c, k)" by (cases st)
  show ?case
  proof (cases "v b = 1 \<and> length (out_edges g b) = 2")
    case True
    with Suc.prems st show ?thesis by (auto simp: pre_body_def)
  next
    case False
    with Suc.prems st have "pre_loop (pre n g) (map snd (out_edges g b)) (v(b := 1), c, k @ [b]) = Some st'"
      by (auto simp: pre_body_def)
    from pre_loop_marks [OF step this, where x = x] Suc.prems st show ?thesis by auto
  qed
qed

lemma pre_terminates_aux:
  assumes acyc: "acyclic (nonbranch_edges g)"
  shows "\<exists>n r. pre n g (snd p) (fst p, c, k) = Some r"
proof -
  define M where "M = inv_image (less_than <*lex*> (nonbranch_edges g)\<inverse>)
                        (\<lambda>p :: (blk \<Rightarrow> int) \<times> blk. (card (unmarked_branch g (fst p)), snd p))"
  have wfM: "wf M"
    unfolding M_def
    by (intro wf_inv_image wf_lex_prod wf_less_than
          finite_acyclic_wf_converse finite_nonbranch_edges acyc)
  show ?thesis using wfM
  proof (induction p arbitrary: c k rule: wf_induct_rule)
    case (less p)
    obtain v b where p: "p = (v, b)" by (cases p)
    show ?case
    proof (cases "v b = 1 \<and> length (out_edges g b) = 2")
      case True
      then have "pre (Suc 0) g (snd p) (fst p, c, k) = Some (v, insert b c, k @ [b])"
        by (simp add: pre_body_def p)
      then show ?thesis by blast
    next
      case False
      let ?v1 = "v(b := 1)"
      have smaller: "((v2, s), p) \<in> M"
        if s: "s \<in> snd ` set (out_edges g b)" and marks: "\<And>x. ?v1 x = 1 \<Longrightarrow> v2 x = 1"
        for v2 s
      proof -
        have sub: "unmarked_branch g v2 \<subseteq> unmarked_branch g v"
          using marks by (auto simp: unmarked_branch_def)
        show ?thesis
        proof (cases "length (out_edges g b) = 2")
          case True
          with False have "b \<in> unmarked_branch g v" by (simp add: unmarked_branch_def)
          moreover have "b \<notin> unmarked_branch g v2"
            using marks [of b] by (simp add: unmarked_branch_def)
          ultimately have "unmarked_branch g v2 \<subset> unmarked_branch g v"
            using sub by auto
          then have "card (unmarked_branch g v2) < card (unmarked_branch g v)"
            by (rule psubset_card_mono [OF finite_unmarked_branch])
          then show ?thesis by (simp add: M_def p)
        next
          case False
          with s have "(b, s) \<in> nonbranch_edges g" by (simp add: nonbranch_edges_def)
          moreover have "card (unmarked_branch g v2) \<le> card (unmarked_branch g v)"
            by (rule card_mono [OF finite_unmarked_branch sub])
          ultimately show ?thesis by (auto simp: M_def p)
        qed
      qed
      have loop: "\<exists>n r. pre_loop (pre n g) ss (v2, c2, k2) = Some r"
        if "set ss \<subseteq> snd ` set (out_edges g b)" and "\<And>x. ?v1 x = 1 \<Longrightarrow> v2 x = 1"
        for ss v2 c2 k2
        using that
      proof (induction ss arbitrary: v2 c2 k2)
        case Nil
        then show ?case by simp
      next
        case (Cons s ss)
        from Cons.prems have "((v2, s), p) \<in> M" by (intro smaller) auto
        from less.IH [OF this, of c2 k2]
        obtain n1 r1 where n1: "pre n1 g s (v2, c2, k2) = Some r1" by auto
        obtain v3 c3 k3 where r1: "r1 = (v3, c3, k3)" by (cases r1)
        have "\<And>x. ?v1 x = 1 \<Longrightarrow> v3 x = 1"
          using pre_marks [OF n1] Cons.prems(2) r1 by simp
        with Cons.IH [of v3 c3 k3] Cons.prems(1)
        obtain n2 r2 where n2: "pre_loop (pre n2 g) ss (v3, c3, k3) = Some r2" by auto
        have a: "pre (max n1 n2) g s (v2, c2, k2) = Some r1"
          by (rule pre_mono [OF _ n1]) simp
        have b: "pre_loop (pre (max n1 n2) g) ss (v3, c3, k3) = Some r2"
          by (rule pre_loop_mono [OF _ n2], rule pre_mono) simp_all
        from a b r1 have "pre_loop (pre (max n1 n2) g) (s # ss) (v2, c2, k2) = Some r2"
          by simp
        then show ?case by blast
      qed
      from loop [of "map snd (out_edges g b)" ?v1 c "k @ [b]"]
      obtain n r where "pre_loop (pre n g) (map snd (out_edges g b)) (?v1, c, k @ [b]) = Some r"
        by auto
      with False have "pre (Suc n) g (snd p) (fst p, c, k) = Some r"
        by (auto simp: pre_body_def p)
      then show ?thesis by blast
    qed
  qed
qed

lemma pre_loop_diverges:
  assumes "s \<in> set bs" and "\<And>st. rec s st = None"
  shows "pre_loop rec bs st = None"
  using assms(1)
  by (induction bs arbitrary: st) (auto split: option.splits simp: assms(2))

lemma pre_diverges_aux:
  assumes closed: "\<And>b. b \<in> C \<Longrightarrow> length (out_edges g b) \<noteq> 2 \<and> (\<exists>s \<in> snd ` set (out_edges g b). s \<in> C)"
  shows "b \<in> C \<Longrightarrow> pre n g b st = None"
proof (induction n arbitrary: b st)
  case 0
  then show ?case by simp
next
  case (Suc n)
  from closed [OF Suc.prems] obtain s where
    deg: "length (out_edges g b) \<noteq> 2" and s: "s \<in> snd ` set (out_edges g b)" "s \<in> C"
    by auto
  have "pre_loop (pre n g) (map snd (out_edges g b)) st' = None" for st'
    by (rule pre_loop_diverges [of s]) (use s Suc.IH in auto)
  with deg show ?case by (simp add: pre_body_def split: prod.splits)
qed

lemma pre_diverges_cycle:
  assumes "(b, b) \<in> (nonbranch_edges g)\<^sup>+"
  shows "pre n g b st = None"
proof (rule pre_diverges_aux [where C = "{x. (x, b) \<in> (nonbranch_edges g)\<^sup>+}"])
  fix x assume "x \<in> {x. (x, b) \<in> (nonbranch_edges g)\<^sup>+}"
  then have "(x, b) \<in> (nonbranch_edges g)\<^sup>+" by simp
  then obtain y where xy: "(x, y) \<in> nonbranch_edges g" and yb: "(y, b) \<in> (nonbranch_edges g)\<^sup>*"
    by (auto dest: tranclD)
  from yb assms have "(y, b) \<in> (nonbranch_edges g)\<^sup>+" by (auto elim: rtranclE)
  with xy show "length (out_edges g x) \<noteq> 2 \<and> (\<exists>s \<in> snd ` set (out_edges g x). s \<in> {x. (x, b) \<in> (nonbranch_edges g)\<^sup>+})"
    by (auto simp: nonbranch_edges_def)
next
  show "b \<in> {x. (x, b) \<in> (nonbranch_edges g)\<^sup>+}" using assms by simp
qed

lemma mark_calls_append: "mark_calls n2 (mark_calls n1 v) = mark_calls (n1 @ n2) v"
  by (auto simp: mark_calls_def)

lemma headers_hit_append:
  "headers_hit g v (n1 @ n2) = headers_hit g v n1 \<union> headers_hit g (mark_calls n1 v) n2"
proof -
  have *: "(x \<in> set n1) = (0 < count_list n1 x)" "(x \<in> set n2) = (0 < count_list n2 x)" for x
    using count_list_0_iff [of n1 x] count_list_0_iff [of n2 x] by auto
  show ?thesis
    unfolding headers_hit_def mark_calls_def
    apply (rule set_eqI)
    apply (simp add: * del: count_list_0_iff)
    apply arith
    done
qed

lemma pre_spec_refl: "pre_spec g st st"
  by (cases st) (auto simp: pre_spec_def mark_calls_def headers_hit_def)

lemma pre_spec_trans: "pre_spec g st st' \<Longrightarrow> pre_spec g st' st'' \<Longrightarrow> pre_spec g st st''"
  apply (cases st; cases st'; cases st'')
  apply (clarsimp simp: pre_spec_def)
  apply (simp add: mark_calls_append headers_hit_append Un_assoc)
  done

lemma pre_loop_spec:
  assumes "\<And>b st st'. rec b st = Some st' \<Longrightarrow> pre_spec g st st'"
  shows "pre_loop rec bs st = Some st' \<Longrightarrow> pre_spec g st st'"
proof (induction bs arbitrary: st)
  case Nil
  then show ?case by (simp add: pre_spec_refl)
next
  case (Cons b bs)
  then show ?case
    by (auto split: option.splits intro: pre_spec_trans dest: assms)
qed

lemma pre_sound: "pre n g b st = Some st' \<Longrightarrow> pre_spec g st st'"
proof (induction n arbitrary: b st st')
  case 0
  then show ?case by simp
next
  case (Suc n)
  obtain v c k where st: "st = (v, c, k)" by (cases st)
  show ?case
  proof (cases "v b = 1 \<and> length (out_edges g b) = 2")
    case True
    with Suc.prems st have "st' = (v, insert b c, k @ [b])"
      by (auto simp: pre_body_def)
    moreover have "mark_calls [b] v = v" using True by (auto simp: mark_calls_def)
    moreover have "headers_hit g v [b] = {b}" using True by (auto simp: headers_hit_def)
    ultimately show ?thesis using st by (auto simp: pre_spec_def intro!: exI [of _ "[b]"])
  next
    case False
    with Suc.prems st
    have "pre_loop (pre n g) (map snd (out_edges g b)) (v(b := 1), c, k @ [b]) = Some st'"
      by (auto simp: pre_body_def)
    from pre_loop_spec [OF Suc.IH this]
    have loop: "pre_spec g (v(b := 1), c, k @ [b]) st'" .
    have "mark_calls [b] v = v(b := 1)" by (auto simp: mark_calls_def)
    moreover have "headers_hit g v [b] = {}" using False by (auto simp: headers_hit_def)
    ultimately have "pre_spec g (v, c, k) (v(b := 1), c, k @ [b])"
      by (auto simp: pre_spec_def intro!: exI [of _ "[b]"])
    from pre_spec_trans [OF this loop] st show ?thesis by simp
  qed
qed

lemma closed_calls_append:
  assumes "closed_calls g v n1" and "closed_calls g (mark_calls n1 v) n2"
  shows "closed_calls g v (n1 @ n2)"
  unfolding closed_calls_def
proof (intro ballI conjI impI)
  fix x assume "x \<in> set (n1 @ n2)"
  then show "returns g x" using assms by (auto simp: closed_calls_def)
next
  fix x assume x: "x \<in> set (n1 @ n2)" and e: "v x \<noteq> 1 \<or> length (out_edges g x) \<noteq> 2"
  show "snd ` set (out_edges g x) \<subseteq> set (n1 @ n2)"
  proof (cases "x \<in> set n1")
    case True
    with assms(1) e show ?thesis by (auto simp: closed_calls_def)
  next
    case False
    with x have "x \<in> set n2" by simp
    moreover from False e have "mark_calls n1 v x \<noteq> 1 \<or> length (out_edges g x) \<noteq> 2"
      by (simp add: mark_calls_def)
    ultimately show ?thesis using assms(2) by (auto simp: closed_calls_def)
  qed
qed

lemma pre_inv_Nil: "pre_inv g [] st st"
  by (cases st) (auto simp: pre_inv_def mark_calls_def closed_calls_def)

lemma pre_inv_Cons:
  "pre_inv g [b] st st1 \<Longrightarrow> pre_inv g bs st1 st' \<Longrightarrow> pre_inv g (b # bs) st st'"
  apply (cases st; cases st1; cases st')
  apply (clarsimp simp: pre_inv_def mark_calls_append)
  apply (auto intro: closed_calls_append)
  done

lemma pre_loop_inv:
  assumes "\<And>b st st'. rec b st = Some st' \<Longrightarrow> pre_inv g [b] st st'"
  shows "pre_loop rec bs st = Some st' \<Longrightarrow> pre_inv g bs st st'"
proof (induction bs arbitrary: st)
  case Nil
  then show ?case by (simp add: pre_inv_Nil)
next
  case (Cons b bs)
  then show ?case
    by (auto split: option.splits intro: pre_inv_Cons dest: assms)
qed

lemma pre_inv: "pre n g b st = Some st' \<Longrightarrow> pre_inv g [b] st st'"
proof (induction n arbitrary: b st st')
  case 0
  then show ?case by simp
next
  case (Suc n)
  obtain v c k where st: "st = (v, c, k)" by (cases st)
  obtain v' c' k' where st': "st' = (v', c', k')" by (cases st')
  from Suc.prems have ret: "returns g b" unfolding returns_def by blast
  show ?case
  proof (cases "v b = 1 \<and> length (out_edges g b) = 2")
    case True
    with Suc.prems st have "st' = (v, insert b c, k @ [b])"
      by (auto simp: pre_body_def)
    moreover have "mark_calls [b] v = v" using True by (auto simp: mark_calls_def)
    moreover have "closed_calls g v [b]" using True ret by (simp add: closed_calls_def)
    ultimately show ?thesis using st by (auto simp: pre_inv_def intro!: exI [of _ "[b]"])
  next
    case False
    with Suc.prems st
    have "pre_loop (pre n g) (map snd (out_edges g b)) (v(b := 1), c, k @ [b]) = Some st'"
      by (auto simp: pre_body_def)
    from pre_loop_inv [OF Suc.IH this] st' obtain new where
      k': "k' = (k @ [b]) @ new" and v': "v' = mark_calls new (v(b := 1))" and
      sub: "set (map snd (out_edges g b)) \<subseteq> set new" and
      cl: "closed_calls g (v(b := 1)) new"
      by (auto simp: pre_inv_def)
    have "v' = mark_calls (b # new) v" using v' by (auto simp: mark_calls_def)
    moreover have "closed_calls g v (b # new)"
      unfolding closed_calls_def
    proof (intro ballI conjI impI)
      fix x assume "x \<in> set (b # new)"
      then show "returns g x" using ret cl by (auto simp: closed_calls_def)
    next
      fix x assume x: "x \<in> set (b # new)" and e: "v x \<noteq> 1 \<or> length (out_edges g x) \<noteq> 2"
      show "snd ` set (out_edges g x) \<subseteq> set (b # new)"
      proof (cases "x = b")
        case True
        with sub show ?thesis by auto
      next
        case False
        with x have "x \<in> set new" by simp
        moreover from False e have "(v(b := 1)) x \<noteq> 1 \<or> length (out_edges g x) \<noteq> 2"
          by simp
        ultimately have "snd ` set (out_edges g x) \<subseteq> set new"
          using cl unfolding closed_calls_def by blast
        then show ?thesis by auto
      qed
    qed
    ultimately show ?thesis using st st' k'
      by (auto simp: pre_inv_def intro!: exI [of _ "b # new"])
  qed
qed

lemma pre_diverges_reachable:
  assumes reach: "(b, c) \<in> (cfg_edges g)\<^sup>*" and cyc: "(c, c) \<in> (nonbranch_edges g)\<^sup>+"
  shows "pre n g b (no_counters, circles, calls) = None"
proof (rule ccontr)
  assume "pre n g b (no_counters, circles, calls) \<noteq> None"
  then obtain st' where r: "pre n g b (no_counters, circles, calls) = Some st'" by auto
  obtain v' c' k' where st': "st' = (v', c', k')" by (cases st')
  from pre_inv [OF r] st' obtain new where
    b: "b \<in> set new" and cl: "closed_calls g no_counters new"
    by (auto simp: pre_inv_def)
  have step: "y \<in> set new" if "x \<in> set new" "(x, y) \<in> cfg_edges g" for x y
    using that cl by (auto simp: closed_calls_def cfg_edges_def no_counters_def)
  from reach b have "c \<in> set new"
    by (induction rule: rtrancl_induct) (auto intro: step)
  with cl have "returns g c" by (simp add: closed_calls_def)
  then obtain m st1 st2 where "pre m g c st1 = Some st2" by (auto simp: returns_def)
  with pre_diverges_cycle [OF cyc, of m st1] show False by simp
qed

lemma nonbranch_edges_loop_cfg: "nonbranch_edges loop_cfg = {(''block_0_1'', ''block_0_0'')}"
  by (auto simp: nonbranch_edges_def out_edges_def loop_cfg_def split: if_splits)

lemma nonbranch_edges_self_loop_cfg:
  "nonbranch_edges self_loop_cfg = {(''block_0_0'', ''block_0_0'')}"
  by (auto simp: nonbranch_edges_def out_edges_def self_loop_cfg_def split: if_splits)

lemma acyclic_branching_join_cfg: "acyclic (cfg_edges branching_join_cfg)"
proof (rule acyclicI_order [where f = "\<lambda>b. 3 - join_rank b"])
  fix a b assume "(a, b) \<in> cfg_edges branching_join_cfg"
  then show "3 - join_rank b < 3 - join_rank a"
    by (auto simp: cfg_edges_def out_edges_def branching_join_cfg_def join_rank_def split: if_splits)
qed

lemma pre_branching_join_cfg:
  "map_option (fst \<circ> snd) (pre 4 branching_join_cfg ''block_0_0'' (no_counters, {}, []))
   = Some {''block_0_3''}"
  by code_simp

text \<open>
  C10: \<^verbatim>\<open>pre\<close> returns on every graph in which each cycle has a block with exactly two
  outgoing edges, from any block and any counters (the graph is finite, being a
  dictionary). It does not return, whatever call depth it is given, when it is started
  on a block of a cycle none of whose blocks has exactly two outgoing edges, nor when it
  is started with fresh counters on a block from which such a cycle can be reached.
\<close>

theorem pre_terminates_unless_nonbranch_cycle:
  "(acyclic (nonbranch_edges g) \<longrightarrow> (\<exists>n r. pre n g b (v, circles, calls) = Some r)) \<and>
   ((b, b) \<in> (nonbranch_edges g)\<^sup>+ \<longrightarrow> (\<forall>n. pre n g b (v, circles, calls) = None)) \<and>
   ((b, c) \<in> (cfg_edges g)\<^sup>* \<and> (c, c) \<in> (nonbranch_edges g)\<^sup>+ \<longrightarrow>
      (\<forall>n. pre n g b (no_counters, circles, calls) = None))"
proof (intro conjI impI allI)
  assume "acyclic (nonbranch_edges g)"
  from pre_terminates_aux [OF this, of "(v, b)" circles calls]
  show "\<exists>n r. pre n g b (v, circles, calls) = Some r" by simp
next
  fix n assume "(b, b) \<in> (nonbranch_edges g)\<^sup>+"
  then show "pre n g b (v, circles, calls) = None" by (rule pre_diverges_cycle)
next
  fix n assume "(b, c) \<in> (cfg_edges g)\<^sup>* \<and> (c, c) \<in> (nonbranch_edges g)\<^sup>+"
  then show "pre n g b (no_counters, circles, calls) = None"
    by (auto intro: pre_diverges_reachable)
qed

theorem pre_terminates_unless_nonbranch_cycle_witness:
  "acyclic (nonbranch_edges loop_cfg) \<and>
   (\<exists>n r. pre n loop_cfg ''block_0_0'' (no_counters, {}, []) = Some r) \<and>
   (''block_0_0'', ''block_0_0'') \<in> (nonbranch_edges self_loop_cfg)\<^sup>+ \<and>
   (\<forall>n. pre n self_loop_cfg ''block_0_0'' (no_counters, {}, []) = None) \<and>
   (''block_0_0'', ''block_0_1'') \<in> (cfg_edges spin_cfg)\<^sup>* \<and>
   (''block_0_1'', ''block_0_1'') \<in> (nonbranch_edges spin_cfg)\<^sup>+ \<and>
   (\<forall>n. pre n spin_cfg ''block_0_0'' (no_counters, {}, []) = None)"
proof -
  have a: "acyclic (nonbranch_edges loop_cfg)"
    by (simp add: nonbranch_edges_loop_cfg acyclic_insert wf_acyclic)
  have c: "(''block_0_0'', ''block_0_0'') \<in> (nonbranch_edges self_loop_cfg)\<^sup>+"
    by (simp add: nonbranch_edges_self_loop_cfg)
  have "(''block_0_0'', ''block_0_1'') \<in> cfg_edges spin_cfg"
    by (simp add: cfg_edges_def out_edges_def spin_cfg_def)
  then have r: "(''block_0_0'', ''block_0_1'') \<in> (cfg_edges spin_cfg)\<^sup>*" by (rule r_into_rtrancl)
  have "(''block_0_1'', ''block_0_1'') \<in> nonbranch_edges spin_cfg"
    by (simp add: nonbranch_edges_def out_edges_def spin_cfg_def)
  then have s: "(''block_0_1'', ''block_0_1'') \<in> (nonbranch_edges spin_cfg)\<^sup>+"
    by (rule r_into_trancl)
  from a c r s
    pre_terminates_unless_nonbranch_cycle
      [of loop_cfg "''block_0_0''" no_counters "{}" "[]"]
    pre_terminates_unless_nonbranch_cycle
      [of self_loop_cfg "''block_0_0''" no_counters "{}" "[]"]
    pre_terminates_unless_nonbranch_cycle
      [of spin_cfg "''block_0_0''" no_counters "{}" "[]" "''block_0_1''"]
  show ?thesis by blast
qed

text \<open>
  C4, as the code has it: \<^verbatim>\<open>pre\<close> adds exactly the blocks with two outgoing edges that
  it reaches while they are marked, that is, blocks marked at the start that it is invoked
  on, and unmarked blocks that it is invoked on twice. The marks are never cleared, so
  the second invocation need not come from a cycle. Blocks with another number of
  outgoing edges are never added.
\<close>

theorem pre_cycle_headers:
  "pre n g b (v, circles, calls) = Some (v', circles', calls') \<Longrightarrow>
   \<exists>new. calls' = calls @ new \<and>
     circles' = circles \<union>
       {x. length (out_edges g x) = 2 \<and> (if v x = 1 then x \<in> set new else 2 \<le> count_list new x)}"
  by (drule pre_sound) (auto simp: pre_spec_def headers_hit_def)

theorem pre_cycle_headers_witness:
  "\<exists>v' calls'.
     pre 4 branching_join_cfg ''block_0_0'' (no_counters, {}, []) = Some (v', {''block_0_3''}, calls') \<and>
     2 \<le> count_list calls' ''block_0_3''"
proof -
  from pre_branching_join_cfg obtain v' calls' where
    r: "pre 4 branching_join_cfg ''block_0_0'' (no_counters, {}, []) = Some (v', {''block_0_3''}, calls')"
    by (cases "pre 4 branching_join_cfg ''block_0_0'' (no_counters, {}, [])") auto
  from pre_cycle_headers [OF r] have
    "{''block_0_3''} = {x. length (out_edges branching_join_cfg x) = 2 \<and>
        (if no_counters x = 1 then x \<in> set calls' else 2 \<le> count_list calls' x)}"
    by simp
  then have "''block_0_3'' \<in> {x. length (out_edges branching_join_cfg x) = 2 \<and>
        (if no_counters x = 1 then x \<in> set calls' else 2 \<le> count_list calls' x)}"
    by blast
  then have "2 \<le> count_list calls' ''block_0_3''"
    by (simp add: no_counters_def)
  with r show ?thesis by blast
qed

text \<open>
  C4 as stated fails: in the diamond \<open>branching_join_cfg\<close>, which has no cycle, the join
  block is reached over two disjoint paths and ends up in the set of cycle headers.
\<close>

theorem pre_adds_join_of_acyclic_diamond:
  "acyclic (cfg_edges branching_join_cfg) \<and>
   map_option (fst \<circ> snd) (pre 4 branching_join_cfg ''block_0_0'' (no_counters, {}, []))
   = Some {''block_0_3''}"
  using acyclic_branching_join_cfg pre_branching_join_cfg by simp


section \<open>Properties of the traversal\<close>

lemma bind_eq_Return_iff: "bind r f = Return y \<longleftrightarrow> (\<exists>x. r = Return x \<and> f x = Return y)"
  by (cases r) auto

lemma frame_refl [simp]: "frame st st"
  by (simp add: frame_def)

lemma frame_trans: "frame st st' \<Longrightarrow> frame st' st'' \<Longrightarrow> frame st st''"
  by (auto simp: frame_def)

lemma frame_events [simp]: "frame st (st\<lparr>events := events st @ new\<rparr>)"
  by (simp add: frame_def)

lemma frame_stdin [simp]: "frame st (st\<lparr>stdin := inp\<rparr>)"
  by (simp add: frame_def)

lemma branch_available_frame:
  "branch_available ext state_item ty st = Return (keep, st') \<Longrightarrow> frame st st'"
  by (auto simp: branch_available_def split: item.splits if_splits option.splits sum.splits)

lemma avail_br_loop_frame:
  "avail_br_loop ext state_item tys avail_br st = Return (avail, st') \<Longrightarrow> frame st st'"
proof (induction tys arbitrary: avail_br st)
  case Nil
  then show ?case by simp
next
  case (Cons ty tys)
  then show ?case
    by (auto simp: bind_eq_Return_iff dest!: branch_available_frame intro: frame_trans)
qed

lemma loop_rounds_frame:
  assumes "frame_call rec"
  shows "loop_rounds rec nxt i enter_states st = Return (out, st') \<Longrightarrow> frame st st'"
proof (induction i arbitrary: enter_states st)
  case 0
  then show ?case by simp
next
  case (Suc i)
  from Suc.prems obtain es st1 where
    a: "rec enter_states nxt (Some [conditional_false]) st = Return (es, st1)" and
    b: "loop_rounds rec nxt i es st1 = Return (out, st')"
    by (auto simp: bind_eq_Return_iff)
  from a assms have "frame st st1" by (auto simp: frame_call_def)
  with Suc.IH [OF b] show ?case by (rule frame_trans [rotated])
qed

lemma take_branch_frame:
  assumes "frame_call rec"
  shows "take_branch rec g circles guided b state_item ty st = Return (out, st') \<Longrightarrow> frame st st'"
proof -
  assume r: "take_branch rec g circles guided b state_item ty st = Return (out, st')"
  have rec: "\<And>states b br st out st'. rec states b br st = Return (out, st') \<Longrightarrow> frame st st'"
    using assms by (auto simp: frame_call_def)
  from r show ?thesis
    by (auto simp: take_branch_def bind_eq_Return_iff split: option.splits if_splits
          dest!: loop_rounds_frame [OF assms] rec intro: frame_trans)
qed

lemma branches_loop_frame:
  assumes "\<And>ty st out st'. f ty st = Return (out, st') \<Longrightarrow> frame st st'"
  shows "branches_loop f tys final_states st = Return (out, st') \<Longrightarrow> frame st st'"
proof (induction tys arbitrary: final_states st)
  case Nil
  then show ?case by simp
next
  case (Cons ty tys)
  then show ?case
    by (auto simp: bind_eq_Return_iff dest!: assms intro: frame_trans)
qed

lemma visit_state_item_frame:
  assumes "frame_call rec"
  shows "visit_state_item rec ext g circles guided b branches emul_states state_item final_states st
         = Return (out, st') \<Longrightarrow> frame st st'"
proof -
  assume r: "visit_state_item rec ext g circles guided b branches emul_states state_item final_states st
         = Return (out, st')"
  then obtain avail st1 avail' st2 where
    a: "avail_br_loop ext state_item
          (case branches of None \<Rightarrow> map fst (out_edges g b) | Some bs \<Rightarrow> bs) [] st
        = Return (avail, st1)" and
    b: "(if guided
          then (case ask_user_input ext emul_states True avail (Some state_item) (stdin st1) of
                  (Inl e, rest) \<Rightarrow> Raise e
                | (Inr (Branch ty), rest) \<Rightarrow> Return ([ty], st1\<lparr>stdin := rest\<rparr>)
                | (Inr (StateIndex i), rest) \<Rightarrow> Raise KeyError)
          else Return (avail, st1)) = Return (avail', st2)" and
    c: "branches_loop (take_branch rec g circles guided b state_item) avail' final_states st2
        = Return (out, st')"
    by (auto simp: visit_state_item_def bind_eq_Return_iff)
  from a have "frame st st1" by (rule avail_br_loop_frame)
  moreover from b have "frame st1 st2"
    by (auto split: if_splits prod.splits sum.splits choice.splits)
  moreover from c have "frame st2 st'"
    by (rule branches_loop_frame [rotated]) (rule take_branch_frame [OF assms])
  ultimately show ?thesis by (blast intro: frame_trans)
qed

lemma states_loop_frame:
  assumes "\<And>item fs st out st'. f item fs st = Return (out, st') \<Longrightarrow> frame st st'"
  shows "states_loop f items final_states st = Return (out, st') \<Longrightarrow> frame st st'"
proof (induction items arbitrary: final_states st)
  case Nil
  then show ?case by simp
next
  case (Cons item items)
  then show ?case
    by (auto simp: bind_eq_Return_iff dest!: assms intro: frame_trans)
qed

lemma explore_frame:
  assumes "frame_call rec"
  shows "explore rec ext g circles guided b branches emul_states st = Return (out, st')
         \<Longrightarrow> frame st st'"
proof -
  assume "explore rec ext g circles guided b branches emul_states st = Return (out, st')"
  then obtain es st1 where
    a: "(if guided
           then (case ask_user_input ext emul_states False [] None (stdin st) of
                   (Inl e, rest) \<Rightarrow> Raise e
                 | (Inr (Branch ty), rest) \<Rightarrow> Raise TypeError
                 | (Inr (StateIndex state_index), rest) \<Rightarrow>
                     (case py_index emul_states state_index of
                        None \<Rightarrow> Raise IndexError
                      | Some state_item \<Rightarrow> Return ([state_item], st\<lparr>stdin := rest\<rparr>)))
           else Return (emul_states, st)) = Return (es, st1)" and
    b: "states_loop (visit_state_item rec ext g circles guided b branches es) es [] st1
        = Return (out, st')"
    by (auto simp: explore_def bind_eq_Return_iff)
  from a have "frame st st1"
    by (auto split: if_splits prod.splits sum.splits choice.splits option.splits)
  moreover from b have "frame st1 st'"
    by (rule states_loop_frame [rotated]) (rule visit_state_item_frame [OF assms])
  ultimately show ?thesis by (rule frame_trans)
qed

lemma visit_body_frame:
  assumes "frame_call rec"
  shows "visit_body rec ext g states has_ret b circles guided branches st = Return (out, st')
         \<Longrightarrow> frame st st'"
proof -
  assume r: "visit_body rec ext g states has_ret b circles guided branches st = Return (out, st')"
  show ?thesis
  proof (cases "\<not> guided \<and> vis st b > 0")
    case True
    with r show ?thesis by (simp add: visit_body_def)
  next
    case past: False
    with r obtain instructions halt emul_states where
      e: "emulate_basic_block ext states has_ret instructions = Inr (halt, emul_states)" and
      i: "map_of (bb_to_instructions g) b = Some instructions"
      by (auto simp: visit_body_def split: option.splits sum.splits)
    let ?st1 = "st\<lparr>events := events st @ [Emulated b states]\<rparr>"
    show ?thesis
    proof (cases "halt \<or> length (out_edges g b) = 0")
      case True
      with r past e i have "st' = ?st1" by (auto simp: visit_body_def)
      then show ?thesis by simp
    next
      case False
      with r past e i obtain fs st2 where
        x: "explore rec ext g circles guided b branches emul_states
              (?st1\<lparr>vis := (vis ?st1)(b := vis ?st1 b + 1)\<rparr>) = Return (fs, st2)" and
        y: "st' = st2\<lparr>vis := (vis st2)(b := vis st2 b - 1)\<rparr>"
        by (auto simp: visit_body_def Let_def bind_eq_Return_iff)
      from explore_frame [OF assms x] y show ?thesis
        by (auto simp: frame_def)
    qed
  qed
qed

lemma visit_frame_call: "frame_call (\<lambda>states b branches st. visit n ext g states has_ret b circles guided branches st)"
proof (induction n)
  case 0
  then show ?case by (simp add: frame_call_def)
next
  case (Suc n)
  show ?case
    unfolding frame_call_def
    by (auto dest: visit_body_frame [OF Suc])
qed

lemma visit_frame:
  "visit n ext g states has_ret b circles guided branches st = Return (out, st') \<Longrightarrow> frame st st'"
  using visit_frame_call [of n ext g has_ret circles guided] by (auto simp: frame_call_def)

lemma frame_vis: "frame st st' \<Longrightarrow> vis st' = vis st"
  by (simp add: frame_def)

lemma loop_rounds_agree:
  assumes "frame_call rec" "agree_on V rec rec'"
  shows "vis st = V \<Longrightarrow> loop_rounds rec nxt i es st = loop_rounds rec' nxt i es st"
proof (induction i arbitrary: es st)
  case 0
  then show ?case by simp
next
  case (Suc i)
  from assms(2) Suc.prems
  have eq: "rec' es nxt (Some [conditional_false]) st = rec es nxt (Some [conditional_false]) st"
    by (simp add: agree_on_def)
  show ?case
  proof (cases "rec es nxt (Some [conditional_false]) st")
    case (Return p)
    obtain es' st' where p: "p = (es', st')" by (cases p)
    from Return p assms(1) have "frame st st'" by (auto simp: frame_call_def)
    with Suc.prems have "vis st' = V" by (simp add: frame_def)
    from Suc.IH [OF this] Return p eq show ?thesis by simp
  qed (simp_all add: eq)
qed

lemma take_branch_agree:
  assumes "frame_call rec" "agree_on V rec rec'" "vis st = V"
  shows "take_branch rec g circles guided b state_item ty st =
         take_branch rec' g circles guided b state_item ty st"
proof -
  have one: "rec' states b' br st = rec states b' br st" for states b' br
    using assms(2,3) by (simp add: agree_on_def)
  have "bind (loop_rounds rec' nxt i es st) (\<lambda>(enter_states, st'). rec' enter_states nxt br st') =
        bind (loop_rounds rec nxt i es st) (\<lambda>(enter_states, st'). rec enter_states nxt br st')"
    for nxt i es br
  proof -
    have lr: "loop_rounds rec' nxt i es st = loop_rounds rec nxt i es st"
      using loop_rounds_agree [OF assms(1,2,3), of nxt i es] by simp
    show ?thesis
    proof (cases "loop_rounds rec nxt i es st")
      case (Return p)
      obtain es' st' where p: "p = (es', st')" by (cases p)
      from loop_rounds_frame [OF assms(1)] Return p have "frame st st'" by blast
      with assms(3) have "vis st' = V" by (simp add: frame_def)
      with assms(2) have "rec' es' nxt br st' = rec es' nxt br st'" by (simp add: agree_on_def)
      with Return p lr show ?thesis by simp
    qed (simp_all add: lr)
  qed
  then show ?thesis
    by (simp add: take_branch_def one split: option.splits)
qed

lemma branches_loop_agree:
  assumes "frame_call rec" "agree_on V rec rec'"
  shows "vis st = V \<Longrightarrow>
         branches_loop (take_branch rec g circles guided b state_item) tys fs st =
         branches_loop (take_branch rec' g circles guided b state_item) tys fs st"
proof (induction tys arbitrary: fs st)
  case Nil
  then show ?case by simp
next
  case (Cons ty tys)
  note eq = take_branch_agree [OF assms Cons.prems, of g circles guided b state_item ty]
  show ?case
  proof (cases "take_branch rec g circles guided b state_item ty st")
    case (Return p)
    obtain out st' where p: "p = (out, st')" by (cases p)
    from take_branch_frame [OF assms(1)] Return p have "frame st st'" by blast
    with Cons.prems have "vis st' = V" by (simp add: frame_def)
    from Cons.IH [OF this] Return p eq show ?thesis by simp
  qed (use eq in simp_all)
qed

lemma visit_state_item_agree:
  assumes "frame_call rec" "agree_on V rec rec'" "vis st = V"
  shows "visit_state_item rec ext g circles guided b branches emul_states state_item fs st =
         visit_state_item rec' ext g circles guided b branches emul_states state_item fs st"
proof -
  let ?tys = "case branches of None \<Rightarrow> map fst (out_edges g b) | Some bs \<Rightarrow> bs"
  let ?pick = "\<lambda>avail st1.
     if guided
     then (case ask_user_input ext emul_states True avail (Some state_item) (stdin st1) of
             (Inl e, rest) \<Rightarrow> Raise e
           | (Inr (Branch ty), rest) \<Rightarrow> Return ([ty], st1\<lparr>stdin := rest\<rparr>)
           | (Inr (StateIndex i), rest) \<Rightarrow> Raise KeyError)
     else Return (avail, st1)"
  have inner: "bind (?pick avail st1)
                 (\<lambda>(avail', st2). branches_loop (take_branch rec g circles guided b state_item)
                                     avail' fs st2) =
               bind (?pick avail st1)
                 (\<lambda>(avail', st2). branches_loop (take_branch rec' g circles guided b state_item)
                                     avail' fs st2)"
    if v1: "vis st1 = V" for avail st1
  proof (cases "?pick avail st1")
    case (Return p)
    obtain avail' st2 where p: "p = (avail', st2)" by (cases p)
    from Return p have "frame st1 st2"
      by (auto split: if_splits prod.splits sum.splits choice.splits)
    with v1 have "vis st2 = V" by (simp add: frame_def)
    from branches_loop_agree [OF assms(1,2) this] Return p show ?thesis by simp
  qed simp_all
  show ?thesis
  proof (cases "avail_br_loop ext state_item ?tys [] st")
    case (Return p)
    obtain avail st1 where p: "p = (avail, st1)" by (cases p)
    from avail_br_loop_frame Return p have "frame st st1" by blast
    with assms(3) have "vis st1 = V" by (simp add: frame_def)
    from inner [OF this] Return p show ?thesis
      by (simp add: visit_state_item_def)
  qed (simp_all add: visit_state_item_def)
qed

lemma states_loop_agree:
  assumes "frame_call rec" "agree_on V rec rec'"
  shows "vis st = V \<Longrightarrow>
         states_loop (visit_state_item rec ext g circles guided b branches es) items fs st =
         states_loop (visit_state_item rec' ext g circles guided b branches es) items fs st"
proof (induction items arbitrary: fs st)
  case Nil
  then show ?case by simp
next
  case (Cons item items)
  note eq = visit_state_item_agree [OF assms Cons.prems, of ext g circles guided b branches es item fs]
  show ?case
  proof (cases "visit_state_item rec ext g circles guided b branches es item fs st")
    case (Return p)
    obtain out st' where p: "p = (out, st')" by (cases p)
    from visit_state_item_frame [OF assms(1)] Return p have "frame st st'" by blast
    with Cons.prems have "vis st' = V" by (simp add: frame_def)
    from Cons.IH [OF this] Return p eq show ?thesis by simp
  qed (use eq in simp_all)
qed

lemma explore_agree:
  assumes "frame_call rec" "agree_on V rec rec'" "vis st = V"
  shows "explore rec ext g circles guided b branches emul_states st =
         explore rec' ext g circles guided b branches emul_states st"
proof -
  let ?pick =
    "if guided
     then (case ask_user_input ext emul_states False [] None (stdin st) of
             (Inl e, rest) \<Rightarrow> Raise e
           | (Inr (Branch ty), rest) \<Rightarrow> Raise TypeError
           | (Inr (StateIndex state_index), rest) \<Rightarrow>
               (case py_index emul_states state_index of
                  None \<Rightarrow> Raise IndexError
                | Some state_item \<Rightarrow> Return ([state_item], st\<lparr>stdin := rest\<rparr>)))
     else Return (emul_states, st)"
  show ?thesis
  proof (cases ?pick)
    case (Return p)
    obtain es st1 where p: "p = (es, st1)" by (cases p)
    from Return p have "frame st st1"
      by (auto split: if_splits prod.splits sum.splits choice.splits option.splits)
    with assms(3) have "vis st1 = V" by (simp add: frame_def)
    from states_loop_agree [OF assms(1,2) this] Return p show ?thesis
      by (simp add: explore_def)
  qed (simp_all add: explore_def)
qed

lemma counters_ok_raise:
  "counters_ok g v \<Longrightarrow> out_edges g b \<noteq> [] \<Longrightarrow> counters_ok g (v(b := v b + 1))"
  by (simp add: counters_ok_def)

lemma visit_asserting_eq:
  "counters_ok g (vis st) \<Longrightarrow>
   visit_asserting n ext g states has_ret b circles guided branches st =
   visit n ext g states has_ret b circles guided branches st"
proof (induction n arbitrary: states b branches st)
  case 0
  then show ?case by simp
next
  case (Suc n)
  let ?rec = "\<lambda>states' b' branches' st'. visit n ext g states' has_ret b' circles guided branches' st'"
  let ?rec' = "asserting g (\<lambda>states' b' branches' st'.
                  visit_asserting n ext g states' has_ret b' circles guided branches' st')"
  have fr: "frame_call ?rec" by (rule visit_frame_call)
  have ag: "agree_on V ?rec ?rec'" if "counters_ok g V" for V
    using that Suc.IH by (auto simp: agree_on_def asserting_def)
  have "explore ?rec ext g circles guided b branches emul_states
          (st\<lparr>events := events st @ [Emulated b states], vis := (vis st)(b := vis st b + 1)\<rparr>) =
        explore ?rec' ext g circles guided b branches emul_states
          (st\<lparr>events := events st @ [Emulated b states], vis := (vis st)(b := vis st b + 1)\<rparr>)"
    if "length (out_edges g b) \<noteq> 0" for emul_states
  proof (rule explore_agree [OF fr ag])
    from that Suc.prems show "counters_ok g ((vis st)(b := vis st b + 1))"
      by (intro counters_ok_raise) auto
  qed simp
  then show ?case
    by (auto simp: visit_body_def Let_def split: option.splits sum.splits)
qed

lemma terminal_block_passes_guard:
  "counters_ok g (vis st) \<Longrightarrow> length (out_edges g b) = 0 \<Longrightarrow> \<not> 0 < vis st b"
  by (auto simp: counters_ok_def)

lemma visit_diamond_returns:
  "visit 4 (example_ext always_sat) diamond_cfg [StateItem s0] False ''block_0_0'' {} False None
     fresh_vstate \<noteq> OutOfFuel \<and>
   (\<forall>e. visit 4 (example_ext always_sat) diamond_cfg [StateItem s0] False ''block_0_0'' {} False None
     fresh_vstate \<noteq> Raise e)"
proof -
  have "(case visit 4 (example_ext always_sat) diamond_cfg [StateItem s0] False ''block_0_0'' {}
           False None fresh_vstate of Return r \<Rightarrow> True | _ \<Rightarrow> False)"
    by code_simp
  then show ?thesis by (auto split: result.splits)
qed

text \<open>
  C7: a call of \<^verbatim>\<open>visit\<close> that returns leaves every visit counter at the value it had
  on entry. \<^verbatim>\<open>traverse_one\<close> runs \<^verbatim>\<open>pre\<close> from fresh counters and an empty set of cycle
  headers, and \<^verbatim>\<open>visit\<close> from fresh counters and the set that this run of \<^verbatim>\<open>pre\<close>
  returned; it takes neither from its caller and hands neither back: what it returns are
  the states of \<^verbatim>\<open>visit\<close> (after line 136), the input left and the log.
\<close>

theorem visit_restores_counters:
  "(visit n ext g states has_ret b circles guided branches st = Return (out, st')
      \<longrightarrow> vis st' = vis st) \<and>
   (get_signature ext func = Inr (param_str, return_str) \<and>
    init_state ext func param_str return_str = Inr (state, ret) \<and>
    get_function_name ext func = Inr name \<and>
    map_of (func_to_bbs g) func = Some entry_func_bbs \<and>
    filter (\<lambda>bb. drop (length bb - 2) bb = ''_0'') entry_func_bbs = entry_bb # others
      \<longrightarrow> traverse_one m ext g func None io =
          (case pre m g entry_bb (no_counters, {}, []) of
             None \<Rightarrow> OutOfFuel
           | Some (vis_pre, cycle_headers, calls) \<Rightarrow>
               bind (visit m ext g [StateItem (state\<lparr>current_func_name := name\<rparr>)] ret entry_bb
                       cycle_headers (manual_guide g) None
                       \<lparr>vis = no_counters, stdin = fst io, events = snd io\<rparr>)
                 (\<lambda>(final_states, st).
                    Return (map (write_back_item ext state (current_func_name state))
                              final_states,
                            stdin st, events st))))"
proof (intro conjI impI)
  assume "visit n ext g states has_ret b circles guided branches st = Return (out, st')"
  then have "frame st st'" by (rule visit_frame)
  then show "vis st' = vis st" by (simp add: frame_def)
next
  assume "get_signature ext func = Inr (param_str, return_str) \<and>
    init_state ext func param_str return_str = Inr (state, ret) \<and>
    get_function_name ext func = Inr name \<and>
    map_of (func_to_bbs g) func = Some entry_func_bbs \<and>
    filter (\<lambda>bb. drop (length bb - 2) bb = ''_0'') entry_func_bbs = entry_bb # others"
  then show "traverse_one m ext g func None io =
          (case pre m g entry_bb (no_counters, {}, []) of
             None \<Rightarrow> OutOfFuel
           | Some (vis_pre, cycle_headers, calls) \<Rightarrow>
               bind (visit m ext g [StateItem (state\<lparr>current_func_name := name\<rparr>)] ret entry_bb
                       cycle_headers (manual_guide g) None
                       \<lparr>vis = no_counters, stdin = fst io, events = snd io\<rparr>)
                 (\<lambda>(final_states, st).
                    Return (map (write_back_item ext state (current_func_name state))
                              final_states,
                            stdin st, events st)))"
    by (simp add: traverse_one_def lift_def)
qed

theorem visit_restores_counters_witness:
  "\<exists>out st'.
     visit 4 (example_ext always_sat) diamond_cfg [StateItem s0] False ''block_0_0'' {} False None
       fresh_vstate = Return (out, st') \<and>
     vis st' = no_counters \<and>
     traverse_one 4 (example_ext always_sat) diamond_cfg ''f'' None empty_io =
       (case pre 4 diamond_cfg ''block_0_0'' (no_counters, {}, []) of
          None \<Rightarrow> OutOfFuel
        | Some (vis_pre, cycle_headers, calls) \<Rightarrow>
            bind (visit 4 (example_ext always_sat) diamond_cfg
                    [StateItem (s0\<lparr>current_func_name := ''f''\<rparr>)] False ''block_0_0''
                    cycle_headers (manual_guide diamond_cfg) None
                    \<lparr>vis = no_counters, stdin = fst empty_io, events = snd empty_io\<rparr>)
              (\<lambda>(final_states, st).
                 Return (map (write_back_item (example_ext always_sat) s0 (current_func_name s0))
                           final_states,
                         stdin st, events st)))"
proof -
  from visit_diamond_returns obtain out st' where
    r: "visit 4 (example_ext always_sat) diamond_cfg [StateItem s0] False ''block_0_0'' {} False
          None fresh_vstate = Return (out, st')"
    by (cases "visit 4 (example_ext always_sat) diamond_cfg [StateItem s0] False ''block_0_0'' {}
                 False None fresh_vstate") auto
  have h: "get_signature (example_ext always_sat) ''f'' = Inr ('''', '''') \<and>
    init_state (example_ext always_sat) ''f'' '''' '''' = Inr (s0, False) \<and>
    get_function_name (example_ext always_sat) ''f'' = Inr ''f'' \<and>
    map_of (func_to_bbs diamond_cfg) ''f'' =
      Some [''block_0_0'', ''block_0_1'', ''block_0_2'', ''block_0_3'', ''block_0_4''] \<and>
    filter (\<lambda>bb. drop (length bb - 2) bb = ''_0'')
      [''block_0_0'', ''block_0_1'', ''block_0_2'', ''block_0_3'', ''block_0_4'']
    = ''block_0_0'' # []"
    by (simp add: example_ext_def diamond_cfg_def)
  note t = visit_restores_counters
         [of 4 "example_ext always_sat" diamond_cfg "[StateItem s0]" False "''block_0_0''" "{}"
             False None fresh_vstate out st' "''f''" "[]" "[]" s0 False "''f''"
             "[''block_0_0'', ''block_0_1'', ''block_0_2'', ''block_0_3'', ''block_0_4'']"
             "''block_0_0''" "[]" 4 "empty_io"]
  from t [THEN conjunct1, THEN mp, OF r] have a: "vis st' = no_counters"
    by (simp add: fresh_vstate_def)
  note c = t [THEN conjunct2, THEN mp, OF h]
  show ?thesis
    apply (rule exI [of _ out], rule exI [of _ st'])
    apply (intro conjI)
      apply (rule r)
     apply (rule a)
    apply (rule c)
    done

qed

text \<open>
  C2, as the code has it: in unguided mode \<^verbatim>\<open>visit\<close> returns its input states unchanged,
  without running the emulator, exactly when the counter of the block is positive on
  entry. The counter is raised while the block is being visited and lowered again before
  the visit returns, so it is positive only for a block that is being visited further up
  the call stack. With a counter that is not positive a returning call has run the
  emulator on the block.
\<close>

theorem visit_reentrance_guard:
  "\<not> guided \<Longrightarrow>
   (0 < vis st b \<longrightarrow>
      visit (Suc n) ext g states has_ret b circles guided branches st = Return (states, st)) \<and>
   (\<not> 0 < vis st b \<and>
    visit (Suc n) ext g states has_ret b circles guided branches st = Return (out, st') \<longrightarrow>
      (\<exists>later. events st' = events st @ Emulated b states # later))"
proof (intro conjI impI)
  assume "\<not> guided" "0 < vis st b"
  then show "visit (Suc n) ext g states has_ret b circles guided branches st = Return (states, st)"
    by (simp add: visit_body_def)
next
  let ?rec = "\<lambda>states' b' branches' st'. visit n ext g states' has_ret b' circles guided branches' st'"
  let ?st1 = "st\<lparr>events := events st @ [Emulated b states]\<rparr>"
  assume "\<not> guided"
    and "\<not> 0 < vis st b \<and>
         visit (Suc n) ext g states has_ret b circles guided branches st = Return (out, st')"
  then have past: "\<not> 0 < vis st b"
    and r: "visit_body ?rec ext g states has_ret b circles guided branches st = Return (out, st')"
    by simp_all
  from r past obtain instructions halt emul_states where
    e: "emulate_basic_block ext states has_ret instructions = Inr (halt, emul_states)" and
    i: "map_of (bb_to_instructions g) b = Some instructions"
    by (auto simp: visit_body_def split: option.splits sum.splits)
  show "\<exists>later. events st' = events st @ Emulated b states # later"
  proof (cases "halt \<or> length (out_edges g b) = 0")
    case True
    with r past e i have "st' = ?st1" by (auto simp: visit_body_def)
    then show ?thesis by simp
  next
    case False
    with r past e i obtain fs st2 where
      x: "explore ?rec ext g circles guided b branches emul_states
            (?st1\<lparr>vis := (vis ?st1)(b := vis ?st1 b + 1)\<rparr>) = Return (fs, st2)" and
      y: "st' = st2\<lparr>vis := (vis st2)(b := vis st2 b - 1)\<rparr>"
      by (auto simp: visit_body_def Let_def bind_eq_Return_iff)
    from explore_frame [OF visit_frame_call x] y show ?thesis
      by (auto simp: frame_def)
  qed
qed

theorem visit_reentrance_guard_witness:
  "\<exists>out st' later.
     visit (Suc 3) (example_ext always_sat) diamond_cfg [StateItem s0] False ''block_0_0'' {} False
       None fresh_vstate = Return (out, st') \<and>
     events st' = events fresh_vstate @ Emulated ''block_0_0'' [StateItem s0] # later \<and>
     visit (Suc 3) (example_ext always_sat) diamond_cfg [StateItem s0] False ''block_0_0'' {} False
       None (fresh_vstate\<lparr>vis := no_counters(''block_0_0'' := 1)\<rparr>)
     = Return ([StateItem s0], fresh_vstate\<lparr>vis := no_counters(''block_0_0'' := 1)\<rparr>)"
proof -
  have "Suc 3 = 4" by simp
  with visit_diamond_returns obtain out st' where
    r: "visit (Suc 3) (example_ext always_sat) diamond_cfg [StateItem s0] False ''block_0_0'' {}
          False None fresh_vstate = Return (out, st')"
    by (cases "visit 4 (example_ext always_sat) diamond_cfg [StateItem s0] False ''block_0_0'' {}
                 False None fresh_vstate") auto
  have z: "\<not> 0 < vis fresh_vstate ''block_0_0''"
    by (simp add: fresh_vstate_def no_counters_def)
  have p: "0 < vis (fresh_vstate\<lparr>vis := no_counters(''block_0_0'' := 1)\<rparr>) ''block_0_0''"
    by simp
  have u: "\<not> False" by simp
  note t1 = visit_reentrance_guard [OF u, of fresh_vstate "''block_0_0''" 3
              "example_ext always_sat" diamond_cfg "[StateItem s0]" False "{}" None out st']
  note t2 = visit_reentrance_guard [OF u,
              of "fresh_vstate\<lparr>vis := no_counters(''block_0_0'' := 1)\<rparr>" "''block_0_0''" 3
              "example_ext always_sat" diamond_cfg "[StateItem s0]" False "{}" None]
  from t1 [THEN conjunct2, THEN mp, OF conjI [OF z r]] obtain later where
    l: "events st' = events fresh_vstate @ Emulated ''block_0_0'' [StateItem s0] # later"
    by blast
  show ?thesis
    by (rule exI [of _ out], rule exI [of _ st'], rule exI [of _ later])
       (intro conjI r l t2 [THEN conjunct1, THEN mp, OF p])
qed

text \<open>
  C2 as stated fails: in the diamond \<open>diamond_cfg\<close> the join block 3 heads no cycle and is
  reached over the two branches of block 0; the emulator runs on it both times.
\<close>

theorem diamond_join_emulated_twice:
  "traverse_one 4 (example_ext always_sat) diamond_cfg ''f'' None empty_io =
   Return
    ([StateItem (s0\<lparr>constraints := [1]\<rparr>), StateItem (s0\<lparr>constraints := [2]\<rparr>)],
     [],
     [Emulated ''block_0_0'' [StateItem s0],
      Checked [1], Checked [2],
      Emulated ''block_0_1'' [StateItem (s0\<lparr>constraints := [1]\<rparr>)],
      Emulated ''block_0_3'' [StateItem (s0\<lparr>constraints := [1]\<rparr>)],
      Emulated ''block_0_4'' [StateItem (s0\<lparr>constraints := [1]\<rparr>)],
      Emulated ''block_0_2'' [StateItem (s0\<lparr>constraints := [2]\<rparr>)],
      Emulated ''block_0_3'' [StateItem (s0\<lparr>constraints := [2]\<rparr>)],
      Emulated ''block_0_4'' [StateItem (s0\<lparr>constraints := [2]\<rparr>)]])"
  by code_simp

text \<open>
  C6: when the emulator halts (the call having got to the emulator: guided mode, or a
  counter that is not positive), or when the block has no outgoing edge, \<^verbatim>\<open>visit\<close>
  returns the emulator's states. The counters and the input are as before, the emulator
  call is all that was logged, and a call depth of one suffices: \<^verbatim>\<open>visit\<close> did not call
  itself. For a block without outgoing edges the counters are taken to be consistent
  with the graph, as they are at every call of a traversal (\<open>visit_asserting_eq\<close>): such
  a block never has a positive counter, since line 155 returns before line 156 counts.
\<close>

theorem visit_halt_or_terminal:
  "map_of (bb_to_instructions g) b = Some instructions \<Longrightarrow>
   emulate_basic_block ext states has_ret instructions = Inr (halt, emul_states) \<Longrightarrow>
   halt \<and> (guided \<or> \<not> 0 < vis st b) \<or>
   length (out_edges g b) = 0 \<and> (guided \<or> counters_ok g (vis st)) \<Longrightarrow>
   visit (Suc n) ext g states has_ret b circles guided branches st =
     Return (emul_states, st\<lparr>events := events st @ [Emulated b states]\<rparr>)"
  using terminal_block_passes_guard [of g st b]
  by (auto simp: visit_body_def)

theorem visit_halt_or_terminal_witness:
  "visit (Suc 0) (example_ext always_sat) diamond_cfg [StateItem s0] False ''block_0_4'' {} False None
     fresh_vstate =
   Return ([StateItem s0],
           fresh_vstate\<lparr>events := events fresh_vstate @ [Emulated ''block_0_4'' [StateItem s0]]\<rparr>) \<and>
   visit (Suc 0) halting_ext diamond_cfg [StateItem s0] False ''block_0_0'' {} False None
     fresh_vstate =
   Return ([StateItem s0],
           fresh_vstate\<lparr>events := events fresh_vstate @ [Emulated ''block_0_0'' [StateItem s0]]\<rparr>)"
proof
  show "visit (Suc 0) (example_ext always_sat) diamond_cfg [StateItem s0] False ''block_0_4'' {}
          False None fresh_vstate =
        Return ([StateItem s0],
           fresh_vstate\<lparr>events := events fresh_vstate @ [Emulated ''block_0_4'' [StateItem s0]]\<rparr>)"
  proof (rule visit_halt_or_terminal)
    show "map_of (bb_to_instructions diamond_cfg) ''block_0_4'' = Some [4]"
      by (simp add: diamond_cfg_def)
    show "emulate_basic_block (example_ext always_sat) [StateItem s0] False [4]
          = Inr (False, [StateItem s0])"
      by (simp add: example_ext_def)
    show "False \<and> (False \<or> \<not> 0 < vis fresh_vstate ''block_0_4'') \<or>
          length (out_edges diamond_cfg ''block_0_4'') = 0 \<and>
          (False \<or> counters_ok diamond_cfg (vis fresh_vstate))"
      by (simp add: out_edges_def diamond_cfg_def counters_ok_def fresh_vstate_def no_counters_def)
  qed
  show "visit (Suc 0) halting_ext diamond_cfg [StateItem s0] False ''block_0_0'' {} False None
          fresh_vstate =
        Return ([StateItem s0],
           fresh_vstate\<lparr>events := events fresh_vstate @ [Emulated ''block_0_0'' [StateItem s0]]\<rparr>)"
  proof (rule visit_halt_or_terminal)
    show "map_of (bb_to_instructions diamond_cfg) ''block_0_0'' = Some [0]"
      by (simp add: diamond_cfg_def)
    show "emulate_basic_block halting_ext [StateItem s0] False [0] = Inr (True, [StateItem s0])"
      by (simp add: halting_ext_def)
    show "True \<and> (False \<or> \<not> 0 < vis fresh_vstate ''block_0_0'') \<or>
          length (out_edges diamond_cfg ''block_0_0'') = 0 \<and>
          (False \<or> counters_ok diamond_cfg (vis fresh_vstate))"
      by (simp add: fresh_vstate_def no_counters_def)
  qed
qed

text \<open>
  C8: once \<^verbatim>\<open>visit\<close> is past the re-entrance test and the emulator neither halted nor
  the block is without outgoing edges, it returns what the edges gathered in
  \<^verbatim>\<open>final_states\<close>, and its own input states when nothing was gathered.
\<close>

theorem visit_returns_input_when_nothing_gathered:
  "guided \<or> \<not> 0 < vis st b \<Longrightarrow>
   map_of (bb_to_instructions g) b = Some instructions \<Longrightarrow>
   emulate_basic_block ext states has_ret instructions = Inr (False, emul_states) \<Longrightarrow>
   length (out_edges g b) \<noteq> 0 \<Longrightarrow>
   explore (\<lambda>states' b' branches' st'. visit n ext g states' has_ret b' circles guided branches' st')
     ext g circles guided b branches emul_states
     (st\<lparr>events := events st @ [Emulated b states], vis := (vis st)(b := vis st b + 1)\<rparr>)
   = Return (final_states, st2) \<Longrightarrow>
   visit (Suc n) ext g states has_ret b circles guided branches st =
     Return (if final_states = [] then states else final_states,
             st2\<lparr>vis := (vis st2)(b := vis st2 b - 1)\<rparr>)"
  by (auto simp: visit_body_def)

theorem visit_returns_input_when_nothing_gathered_witness:
  "visit (Suc 0) (example_ext always_unknown) diamond_cfg [StateItem s0] False ''block_0_0'' {}
     False None fresh_vstate =
   Return ([StateItem s0],
           pruned_vstate\<lparr>vis := (vis pruned_vstate)(''block_0_0'' := vis pruned_vstate ''block_0_0'' - 1)\<rparr>)"
proof -
  have e: "explore (\<lambda>states' b' branches' st'.
                      visit 0 (example_ext always_unknown) diamond_cfg states' False b' {} False
                        branches' st')
             (example_ext always_unknown) diamond_cfg {} False ''block_0_0'' None
             [DictItem [(conditional_true, s0\<lparr>constraints := constraints s0 @ [1]\<rparr>),
                        (conditional_false, s0\<lparr>constraints := constraints s0 @ [2]\<rparr>)]]
             (fresh_vstate\<lparr>events := events fresh_vstate @ [Emulated ''block_0_0'' [StateItem s0]],
                            vis := (vis fresh_vstate)(''block_0_0'' := vis fresh_vstate ''block_0_0'' + 1)\<rparr>)
           = Return ([], pruned_vstate)"
    by (simp add: explore_def visit_state_item_def branch_available_def out_edges_def
          diamond_cfg_def example_ext_def always_unknown_def fresh_vstate_def pruned_vstate_def
          no_counters_def s0_def)
  have "visit (Suc 0) (example_ext always_unknown) diamond_cfg [StateItem s0] False ''block_0_0'' {}
     False None fresh_vstate =
   Return (if ([] :: (nat, unit) item list) = [] then [StateItem s0] else [],
           pruned_vstate\<lparr>vis := (vis pruned_vstate)(''block_0_0'' := vis pruned_vstate ''block_0_0'' - 1)\<rparr>)"
  proof (rule visit_returns_input_when_nothing_gathered [OF _ _ _ _ e])
    show "False \<or> \<not> 0 < vis fresh_vstate ''block_0_0''"
      by (simp add: fresh_vstate_def no_counters_def)
    show "map_of (bb_to_instructions diamond_cfg) ''block_0_0'' = Some [0]"
      by (simp add: diamond_cfg_def)
    show "emulate_basic_block (example_ext always_unknown) [StateItem s0] False [0]
          = Inr (False, [DictItem [(conditional_true, s0\<lparr>constraints := constraints s0 @ [1]\<rparr>),
                        (conditional_false, s0\<lparr>constraints := constraints s0 @ [2]\<rparr>)]])"
      by (simp add: example_ext_def)
    show "length (out_edges diamond_cfg ''block_0_0'') \<noteq> 0"
      by (simp add: out_edges_def diamond_cfg_def)
  qed
  then show ?thesis by simp
qed
section \<open>An unguided \<^verbatim>\<open>visit\<close> carries out the steps of its states\<close>

text \<open>
  The loops of \<^verbatim>\<open>visit\<close> in unguided mode, one by one, do what \<open>run_steps\<close> does with
  the steps of the emulator's states.
\<close>

lemma visit_chain_snoc:
  "visit_chain rec b (xs @ [x]) states st =
   bind (visit_chain rec b xs states st) (\<lambda>(states', st'). rec states' b x st')"
proof (induction xs arbitrary: states st)
  case Nil
  show ?case by (cases "rec states b x st") auto
next
  case (Cons y xs)
  show ?case
    by (cases "rec states b y st") (auto simp: Cons.IH)
qed

lemma visit_chain_single: "visit_chain rec b [x] states st = rec states b x st"
  by (cases "rec states b x st") auto

lemma loop_rounds_chain:
  "loop_rounds rec nxt i enter_states st =
   visit_chain rec nxt (replicate i (Some [conditional_false])) enter_states st"
proof (induction i arbitrary: enter_states st)
  case 0
  then show ?case by simp
next
  case (Suc i)
  show ?case
    by (cases "rec enter_states nxt (Some [conditional_false]) st") (auto simp: Suc.IH)
qed

lemma bind_Return_pair: "bind m (\<lambda>(x, y). Return (x, y)) = m"
  by (cases m) auto

lemma take_branch_unguided:
  "take_branch rec g circles False b state_item ty st =
   (case map_of (out_edges g b) ty of
      None \<Rightarrow> Raise KeyError
    | Some nxt_blk \<Rightarrow>
        (case (case state_item of DictItem d \<Rightarrow> map_of d ty | StateItem s \<Rightarrow> Some s) of
           None \<Rightarrow> Raise KeyError
         | Some s \<Rightarrow> visit_chain rec nxt_blk (branch_sets circles nxt_blk) [StateItem s] st))"
  by (simp add: take_branch_def branch_sets_def loop_rounds_chain visit_chain_snoc
        visit_chain_single del: visit_chain.simps split: option.splits)

lemma branches_loop_follow:
  "branches_loop (take_branch rec g circles False b state_item) tys gathered st =
   run_steps rec ext g circles b
     (map (\<lambda>ty. Follow ty (case state_item of DictItem d \<Rightarrow> map_of d ty | StateItem s \<Rightarrow> Some s)) tys)
     gathered st"
proof (induction tys arbitrary: gathered st)
  case Nil
  then show ?case by simp
next
  case (Cons ty tys)
  show ?case
  proof (cases "map_of (out_edges g b) ty")
    case None
    then show ?thesis by (simp add: take_branch_unguided)
  next
    case (Some nxt_blk)
    show ?thesis
    proof (cases "case state_item of DictItem d \<Rightarrow> map_of d ty | StateItem s \<Rightarrow> Some s")
      case None
      with Some show ?thesis by (simp add: take_branch_unguided)
    next
      case s: (Some s)
      show ?thesis
      proof (cases "visit_chain rec nxt_blk (branch_sets circles nxt_blk) [StateItem s] st")
        case (Return p)
        obtain out st' where "p = (out, st')" by (cases p)
        with Return Some s
        have "take_branch rec g circles False b state_item ty st = Return (out, st')"
          by (simp add: take_branch_unguided)
        with Return Some s \<open>p = (out, st')\<close> show ?thesis by (simp add: Cons.IH)
      qed (use Some s in \<open>simp_all add: take_branch_unguided\<close>)
    qed
  qed
qed

lemma run_steps_append:
  "run_steps rec ext g circles b (xs @ ys) gathered st =
   bind (run_steps rec ext g circles b xs gathered st)
     (\<lambda>(gathered', st'). run_steps rec ext g circles b ys gathered' st')"
proof (induction xs arbitrary: gathered st)
  case Nil
  then show ?case by simp
next
  case (Cons x xs)
  show ?case
  proof (cases x)
    case (Ask cs)
    then show ?thesis by (simp add: Cons.IH split: sum.splits)
  next
    case (Follow ty state)
    show ?thesis
    proof (cases "map_of (out_edges g b) ty")
      case None
      with Follow show ?thesis by simp
    next
      case (Some nxt_blk)
      show ?thesis
      proof (cases state)
        case None
        with Follow Some show ?thesis by simp
      next
        case s: (Some s)
        show ?thesis
        proof (cases "visit_chain rec nxt_blk (branch_sets circles nxt_blk) [StateItem s] st")
          case (Return p)
          obtain out st' where "p = (out, st')" by (cases p)
          with Return Follow Some s show ?thesis by (simp add: Cons.IH)
        qed (use Follow Some s in simp_all)
      qed
    qed
  qed
qed

lemma avail_br_loop_flat:
  "avail_br_loop ext (StateItem s) tys avail_br st = Return (avail_br @ tys, st)"
  by (induction tys arbitrary: avail_br) (simp_all add: branch_available_def)

lemma kept_types_Cons:
  "kept_types ext d (ty # tys) = kept_types ext d [ty] @ kept_types ext d tys"
  by (simp add: kept_types_def)

lemma asked_Cons: "asked d (ty # tys) = asked d [ty] @ asked d tys"
  by (simp add: asked_def)

lemma avail_br_loop_dict_steps:
  "bind (avail_br_loop ext (DictItem d) tys avail_br st)
     (\<lambda>(avail, st1). run_steps rec ext g circles b
                        (map (\<lambda>ty. Follow ty (map_of d ty)) avail) gathered st1) =
   run_steps rec ext g circles b
     (map Ask (asked d tys) @
      map (\<lambda>ty. Follow ty (map_of d ty)) (avail_br @ kept_types ext d tys)) gathered st"
proof (induction tys arbitrary: avail_br st)
  case Nil
  then show ?case by (simp add: asked_def kept_types_def)
next
  case (Cons ty tys)
  show ?case
  proof (cases "(ty = conditional_true \<or> ty = conditional_false) \<and> map_of d ty \<noteq> None")
    case True
    then obtain s where s: "map_of d ty = Some s" by auto
    with True have a: "asked d [ty] = [constraints s]" by (auto simp: asked_def)
    show ?thesis
    proof (cases "solver_check ext (constraints s)")
      case (Inl e)
      with True s a show ?thesis
        by (subst asked_Cons) (auto simp: branch_available_def)
    next
      case (Inr verdict)
      with True s have k: "kept_types ext d [ty] = (if verdict = sat then [ty] else [])"
        by (auto simp: kept_types_def)
      from True s Inr have ba: "branch_available ext (DictItem d) ty st =
          Return (verdict = sat, st\<lparr>events := events st @ [Checked (constraints s)]\<rparr>)"
        by (auto simp: branch_available_def)
      show ?thesis
        apply (subst asked_Cons, subst kept_types_Cons)
        apply (simp add: a k ba Inr Cons.IH)
        done
    qed
  next
    case False
    then have a: "asked d [ty] = []" by (auto simp: asked_def split: option.splits)
    from False have k: "kept_types ext d [ty] =
        (if ty = conditional_true \<or> ty = conditional_false then [] else [ty])"
      by (auto simp: kept_types_def)
    from False have ba: "branch_available ext (DictItem d) ty st =
        Return (\<not> (ty = conditional_true \<or> ty = conditional_false), st)"
      by (auto simp: branch_available_def)
    show ?thesis
      apply (subst asked_Cons, subst kept_types_Cons)
      apply (simp add: a k ba Cons.IH)
      done
  qed
qed

lemma visit_state_item_unguided:
  "visit_state_item rec ext g circles False b branches emul_states state_item gathered st =
   run_steps rec ext g circles b
     (item_steps ext (case branches of None \<Rightarrow> map fst (out_edges g b) | Some bs \<Rightarrow> bs) state_item)
     gathered st"
proof (cases state_item)
  case (StateItem s)
  then show ?thesis
    by (simp add: visit_state_item_def avail_br_loop_flat branches_loop_follow [where ext = ext])
next
  case (DictItem d)
  from avail_br_loop_dict_steps [of ext d _ "[]" st rec g circles b gathered]
  show ?thesis
    unfolding DictItem
    by (simp add: visit_state_item_def branches_loop_follow [where ext = ext])
qed

lemma states_loop_unguided:
  "states_loop (visit_state_item rec ext g circles False b branches emul_states) items gathered st =
   run_steps rec ext g circles b
     (concat (map (item_steps ext
                     (case branches of None \<Rightarrow> map fst (out_edges g b) | Some bs \<Rightarrow> bs)) items))
     gathered st"
proof (induction items arbitrary: gathered st)
  case Nil
  then show ?case by simp
next
  case (Cons item items)
  let ?tys = "case branches of None \<Rightarrow> map fst (out_edges g b) | Some bs \<Rightarrow> bs"
  show ?case
  proof (cases "run_steps rec ext g circles b (item_steps ext ?tys item) gathered st")
    case (Return p)
    obtain gathered' st' where "p = (gathered', st')" by (cases p)
    with Return
    have "visit_state_item rec ext g circles False b branches emul_states item gathered st =
          Return (gathered', st')"
      by (simp add: visit_state_item_unguided)
    with Return \<open>p = (gathered', st')\<close> show ?thesis
      by (simp add: run_steps_append Cons.IH)
  next
    case OutOfFuel
    moreover from OutOfFuel
    have "visit_state_item rec ext g circles False b branches emul_states item gathered st =
          OutOfFuel"
      by (simp add: visit_state_item_unguided)
    ultimately show ?thesis by (simp add: run_steps_append)
  next
    case (Raise e)
    moreover from Raise
    have "visit_state_item rec ext g circles False b branches emul_states item gathered st =
          Raise e"
      by (simp add: visit_state_item_unguided)
    ultimately show ?thesis by (simp add: run_steps_append)
  qed
qed

lemma explore_unguided:
  "explore rec ext g circles False b branches emul_states st =
   run_steps rec ext g circles b
     (concat (map (item_steps ext
                     (case branches of None \<Rightarrow> map fst (out_edges g b) | Some bs \<Rightarrow> bs))
                emul_states))
     [] st"
  by (simp add: explore_def states_loop_unguided)

lemma visit_unguided:
  assumes "\<not> 0 < vis st b"
    and "map_of (bb_to_instructions g) b = Some instructions"
    and "emulate_basic_block ext states has_ret instructions = Inr (False, emul_states)"
    and "out_edges g b \<noteq> []"
  shows "visit (Suc n) ext g states has_ret b circles False branches st =
     bind (run_steps (visit_at_depth n ext g has_ret circles False) ext g circles b
             (concat (map (item_steps ext
                             (case branches of None \<Rightarrow> map fst (out_edges g b) | Some bs \<Rightarrow> bs))
                        emul_states))
             [] (st\<lparr>events := events st @ [Emulated b states], vis := (vis st)(b := vis st b + 1)\<rparr>))
       (\<lambda>(final_states, st2).
          Return (if final_states \<noteq> [] then final_states else states,
                  st2\<lparr>vis := (vis st2)(b := vis st2 b - 1)\<rparr>))"
  using assms
  by (simp add: visit_body_def explore_unguided visit_at_depth_def)

lemma asked_single:
  "asked d [ty] =
   (if ty = conditional_true \<or> ty = conditional_false
    then (case map_of d ty of None \<Rightarrow> [] | Some s \<Rightarrow> [constraints s]) else [])"
  by (simp add: asked_def)

lemma asked_iff:
  "cs \<in> set (asked d tys) \<longleftrightarrow>
   (\<exists>ty \<in> set tys. (ty = conditional_true \<or> ty = conditional_false) \<and>
                    map_option constraints (map_of d ty) = Some cs)"
proof (induction tys)
  case Nil
  have "asked d [] = []" by (simp add: asked_def)
  then show ?case by simp
next
  case (Cons t tys)
  have c: "asked d (t # tys) = asked d [t] @ asked d tys" by (rule asked_Cons)
  show ?case
  proof (cases "t = conditional_true \<or> t = conditional_false")
    case False
    then have "asked d [t] = []" by (simp add: asked_single)
    with c False Cons show ?thesis by auto
  next
    case True
    show ?thesis
    proof (cases "map_of d t")
      case None
      with True have "asked d [t] = []" by (simp add: asked_single)
      with c None Cons show ?thesis by auto
    next
      case (Some s)
      with True have "asked d [t] = [constraints s]" by (simp add: asked_single)
      with c Some True Cons show ?thesis by auto
    qed
  qed
qed

lemma kept_types_iff:
  "ty \<in> set (kept_types ext d tys) \<longleftrightarrow>
   ty \<in> set tys \<and>
   (ty = conditional_true \<or> ty = conditional_false \<longrightarrow>
    map_option (\<lambda>s. solver_check ext (constraints s)) (map_of d ty) = Some (Inr sat))"
  by (auto simp: kept_types_def split: option.splits)

section \<open>Loop unrolling\<close>



section \<open>The branch filter\<close>




section \<open>Solver verdicts\<close>

lemma follow_in_item_steps:
  assumes "map_of d ty = Some s"
  shows "Follow ty (Some s) \<in> set (item_steps ext tys (DictItem d)) \<longleftrightarrow>
         ty \<in> set (kept_types ext d tys)"
proof
  assume "Follow ty (Some s) \<in> set (item_steps ext tys (DictItem d))"
  then have "Follow ty (Some s) \<in> Ask ` set (asked d tys) \<or>
             Follow ty (Some s) \<in> (\<lambda>ty. Follow ty (map_of d ty)) ` set (kept_types ext d tys)"
    by (simp only: item_steps.simps set_append set_map Un_iff)
  then show "ty \<in> set (kept_types ext d tys)" by auto
next
  assume "ty \<in> set (kept_types ext d tys)"
  then have "Follow ty (map_of d ty) \<in> (\<lambda>ty. Follow ty (map_of d ty)) ` set (kept_types ext d tys)"
    by (rule imageI)
  with assms show "Follow ty (Some s) \<in> set (item_steps ext tys (DictItem d))"
    by (simp only: item_steps.simps set_append set_map Un_iff) simp
qed

lemma conditional_step_iff_sat:
  assumes "ty \<in> set tys \<and> (ty = conditional_true \<or> ty = conditional_false) \<and>
      map_of d ty = Some s \<and> solver_check ext (constraints s) = Inr verdict"
  shows "constraints s \<in> set (asked d tys) \<and>
      (Follow ty (Some s) \<in> set (item_steps ext tys (DictItem d)) \<longleftrightarrow> verdict = sat)"
proof -
  from assms have m: "map_of d ty = Some s" by simp
  from assms have "constraints s \<in> set (asked d tys)"
    by (subst asked_iff) (auto intro!: bexI [of _ ty])
  moreover from assms have "ty \<in> set (kept_types ext d tys) \<longleftrightarrow> verdict = sat"
    by (auto simp: kept_types_iff)
  ultimately show ?thesis
    using follow_in_item_steps [OF m, of ext tys] by simp
qed

text \<open>
  C1, as the code has it. In unguided mode a call of \<^verbatim>\<open>visit\<close> on a block that is not
  being visited, whose emulation does not halt and that has outgoing edges, carries out
  the steps of the emulator's states (the first conjunct). For a conditional edge type
  that a per-branch dictionary has a state for, the solver is asked, and the edge is
  among the steps exactly when the answer is \<^verbatim>\<open>sat\<close> (the test of line 179 is
  \<^verbatim>\<open>sat != solver.check()\<close>): the answer \<^verbatim>\<open>unknown\<close> prunes the edge as \<^verbatim>\<open>unsat\<close> does.
  After an answer, whichever it is, \<^verbatim>\<open>visit\<close> goes on with the steps that remain. A
  solver call that raises is not caught: if the steps before the query return, the
  exception ends the call of \<^verbatim>\<open>visit\<close>.
\<close>

theorem branch_followed_iff_sat:
  assumes "\<not> 0 < vis st b"
    and "map_of (bb_to_instructions g) b = Some instructions"
    and "emulate_basic_block ext states has_ret instructions = Inr (False, emul_states)"
    and "out_edges g b \<noteq> []"
  shows "visit (Suc n) ext g states has_ret b circles False branches st =
     bind (run_steps (visit_at_depth n ext g has_ret circles False) ext g circles b
             (concat (map (item_steps ext
                             (case branches of None \<Rightarrow> map fst (out_edges g b) | Some bs \<Rightarrow> bs))
                        emul_states))
             [] (st\<lparr>events := events st @ [Emulated b states], vis := (vis st)(b := vis st b + 1)\<rparr>))
       (\<lambda>(final_states, st2).
          Return (if final_states \<noteq> [] then final_states else states,
                  st2\<lparr>vis := (vis st2)(b := vis st2 b - 1)\<rparr>)) \<and>
   (\<forall>d tys ty s verdict.
      ty \<in> set tys \<and> (ty = conditional_true \<or> ty = conditional_false) \<and>
      map_of d ty = Some s \<and> solver_check ext (constraints s) = Inr verdict \<longrightarrow>
      constraints s \<in> set (asked d tys) \<and>
      (Follow ty (Some s) \<in> set (item_steps ext tys (DictItem d)) \<longleftrightarrow> verdict = sat)) \<and>
   (\<forall>cs verdict steps gathered st'.
      solver_check ext cs = Inr verdict \<longrightarrow>
      run_steps (visit_at_depth n ext g has_ret circles False) ext g circles b
        (Ask cs # steps) gathered st' =
      run_steps (visit_at_depth n ext g has_ret circles False) ext g circles b
        steps gathered (st'\<lparr>events := events st' @ [Checked cs]\<rparr>)) \<and>
   (\<forall>before cs after gathered st' e.
      concat (map (item_steps ext
                     (case branches of None \<Rightarrow> map fst (out_edges g b) | Some bs \<Rightarrow> bs))
                emul_states) = before @ Ask cs # after \<and>
      run_steps (visit_at_depth n ext g has_ret circles False) ext g circles b before []
        (st\<lparr>events := events st @ [Emulated b states], vis := (vis st)(b := vis st b + 1)\<rparr>) =
        Return (gathered, st') \<and>
      solver_check ext cs = Inl e \<longrightarrow>
      visit (Suc n) ext g states has_ret b circles False branches st = Raise e)"
proof -
  let ?R = "visit_at_depth n ext g has_ret circles False"
  let ?tys = "case branches of None \<Rightarrow> map fst (out_edges g b) | Some bs \<Rightarrow> bs"
  let ?st1 = "st\<lparr>events := events st @ [Emulated b states], vis := (vis st)(b := vis st b + 1)\<rparr>"
  have 1: "visit (Suc n) ext g states has_ret b circles False branches st =
     bind (run_steps ?R ext g circles b (concat (map (item_steps ext ?tys) emul_states)) [] ?st1)
       (\<lambda>(final_states, st2).
          Return (if final_states \<noteq> [] then final_states else states,
                  st2\<lparr>vis := (vis st2)(b := vis st2 b - 1)\<rparr>))"
    using assms by (rule visit_unguided)
  have 2: "\<forall>d tys ty s verdict.
      ty \<in> set tys \<and> (ty = conditional_true \<or> ty = conditional_false) \<and>
      map_of d ty = Some s \<and> solver_check ext (constraints s) = Inr verdict \<longrightarrow>
      constraints s \<in> set (asked d tys) \<and>
      (Follow ty (Some s) \<in> set (item_steps ext tys (DictItem d)) \<longleftrightarrow> verdict = sat)"
    by (intro allI impI) (rule conditional_step_iff_sat)
  have 3: "\<forall>cs verdict steps gathered st'.
      solver_check ext cs = Inr verdict \<longrightarrow>
      run_steps ?R ext g circles b (Ask cs # steps) gathered st' =
      run_steps ?R ext g circles b steps gathered (st'\<lparr>events := events st' @ [Checked cs]\<rparr>)"
    by simp
  have 4: "\<forall>before cs after gathered st' e.
      concat (map (item_steps ext ?tys) emul_states) = before @ Ask cs # after \<and>
      run_steps ?R ext g circles b before [] ?st1 = Return (gathered, st') \<and>
      solver_check ext cs = Inl e \<longrightarrow>
      visit (Suc n) ext g states has_ret b circles False branches st = Raise e"
  proof (intro allI impI)
    fix before cs after gathered st' e
    assume a: "concat (map (item_steps ext ?tys) emul_states) = before @ Ask cs # after \<and>
      run_steps ?R ext g circles b before [] ?st1 = Return (gathered, st') \<and>
      solver_check ext cs = Inl e"
    then have "run_steps ?R ext g circles b (before @ Ask cs # after) [] ?st1 = Raise e"
      by (simp add: run_steps_append)
    with a have "run_steps ?R ext g circles b (concat (map (item_steps ext ?tys) emul_states))
                   [] ?st1 = Raise e"
      by simp
    with 1 show "visit (Suc n) ext g states has_ret b circles False branches st = Raise e"
      by simp
  qed
  from 1 2 3 4 show ?thesis by (intro conjI)
qed

text \<open>
  Block 0 of \<open>diamond_cfg\<close>: with the solver that answers \<^verbatim>\<open>unknown\<close> the edge
  \<^verbatim>\<open>conditional_true\<close> is not among the steps, and with the solver that raises the
  call of \<^verbatim>\<open>visit\<close> raises.
\<close>

theorem branch_followed_iff_sat_witness:
  "visit (Suc 3) (example_ext always_unknown) diamond_cfg [StateItem s0] False ''block_0_0'' {}
     False None fresh_vstate =
   bind (run_steps (visit_at_depth 3 (example_ext always_unknown) diamond_cfg False {} False)
           (example_ext always_unknown) diamond_cfg {} ''block_0_0''
           (concat (map (item_steps (example_ext always_unknown)
                           (case None of
                              None \<Rightarrow> map fst (out_edges diamond_cfg ''block_0_0'')
                            | Some bs \<Rightarrow> bs))
                      [DictItem forked]))
           [] (fresh_vstate\<lparr>events := events fresh_vstate @ [Emulated ''block_0_0'' [StateItem s0]],
                 vis := (vis fresh_vstate)(''block_0_0'' := vis fresh_vstate ''block_0_0'' + 1)\<rparr>))
     (\<lambda>(final_states, st2).
        Return (if final_states \<noteq> [] then final_states else [StateItem s0],
                st2\<lparr>vis := (vis st2)(''block_0_0'' := vis st2 ''block_0_0'' - 1)\<rparr>)) \<and>
   [1] \<in> set (asked forked [conditional_true, conditional_false]) \<and>
   Follow conditional_true (Some (s0\<lparr>constraints := [1]\<rparr>)) \<notin>
     set (item_steps (example_ext always_unknown) [conditional_true, conditional_false]
            (DictItem forked)) \<and>
   visit (Suc 3) (example_ext always_raises) diamond_cfg [StateItem s0] False ''block_0_0'' {}
     False None fresh_vstate = Raise Z3Exception"
proof -
  have h1: "\<not> 0 < vis fresh_vstate ''block_0_0''"
    by (simp add: fresh_vstate_def no_counters_def)
  have h2: "map_of (bb_to_instructions diamond_cfg) ''block_0_0'' = Some [0]"
    by (simp add: diamond_cfg_def)
  have h3: "emulate_basic_block (example_ext solver) [StateItem s0] False [0] =
            Inr (False, [DictItem forked])" for solver
    by (simp add: example_ext_def forked_def s0_def)
  have h4: "out_edges diamond_cfg ''block_0_0'' \<noteq> []"
    by (simp add: out_edges_def diamond_cfg_def)
  note tu = branch_followed_iff_sat [OF h1 h2 h3 [of always_unknown] h4, of 3 "{}" None]
  note tr = branch_followed_iff_sat [OF h1 h2 h3 [of always_raises] h4, of 3 "{}" None]
  have a: "visit (Suc 3) (example_ext always_unknown) diamond_cfg [StateItem s0] False ''block_0_0'' {}
     False None fresh_vstate =
   bind (run_steps (visit_at_depth 3 (example_ext always_unknown) diamond_cfg False {} False)
           (example_ext always_unknown) diamond_cfg {} ''block_0_0''
           (concat (map (item_steps (example_ext always_unknown)
                           (case None of
                              None \<Rightarrow> map fst (out_edges diamond_cfg ''block_0_0'')
                            | Some bs \<Rightarrow> bs))
                      [DictItem forked]))
           [] (fresh_vstate\<lparr>events := events fresh_vstate @ [Emulated ''block_0_0'' [StateItem s0]],
                 vis := (vis fresh_vstate)(''block_0_0'' := vis fresh_vstate ''block_0_0'' + 1)\<rparr>))
     (\<lambda>(final_states, st2).
        Return (if final_states \<noteq> [] then final_states else [StateItem s0],
                st2\<lparr>vis := (vis st2)(''block_0_0'' := vis st2 ''block_0_0'' - 1)\<rparr>))"
    using tu by (rule conjunct1)
  have m: "conditional_true \<in> set [conditional_true, conditional_false] \<and>
           (conditional_true = conditional_true \<or> conditional_true = conditional_false) \<and>
           map_of forked conditional_true = Some (s0\<lparr>constraints := [1]\<rparr>) \<and>
           solver_check (example_ext always_unknown) (constraints (s0\<lparr>constraints := [1]\<rparr>)) =
             Inr unknown"
    by (simp add: forked_def example_ext_def always_unknown_def)
  from tu [ THEN conjunct2, THEN conjunct1, THEN spec, THEN spec, THEN spec,
          THEN spec, THEN spec, THEN mp, OF m]
  have b: "[1] \<in> set (asked forked [conditional_true, conditional_false]) \<and>
   Follow conditional_true (Some (s0\<lparr>constraints := [1]\<rparr>)) \<notin>
     set (item_steps (example_ext always_unknown) [conditional_true, conditional_false]
            (DictItem forked))"
    by simp
  have p: "concat (map (item_steps (example_ext always_raises)
                     (case None of
                        None \<Rightarrow> map fst (out_edges diamond_cfg ''block_0_0'')
                      | Some bs \<Rightarrow> bs))
                [DictItem forked]) = [] @ Ask [1] # [Ask [2]] \<and>
      run_steps (visit_at_depth 3 (example_ext always_raises) diamond_cfg False {} False)
        (example_ext always_raises) diamond_cfg {} ''block_0_0'' [] []
        (fresh_vstate\<lparr>events := events fresh_vstate @ [Emulated ''block_0_0'' [StateItem s0]],
           vis := (vis fresh_vstate)(''block_0_0'' := vis fresh_vstate ''block_0_0'' + 1)\<rparr>) =
        Return ([], fresh_vstate\<lparr>events := events fresh_vstate @ [Emulated ''block_0_0'' [StateItem s0]],
           vis := (vis fresh_vstate)(''block_0_0'' := vis fresh_vstate ''block_0_0'' + 1)\<rparr>) \<and>
      solver_check (example_ext always_raises) [1] = Inl Z3Exception"
    by (simp add: out_edges_def diamond_cfg_def forked_def asked_def kept_types_def
          example_ext_def always_raises_def)
  from tr [ THEN conjunct2, THEN conjunct2, THEN conjunct2, THEN spec, THEN spec,
          THEN spec, THEN spec, THEN spec, THEN spec, THEN mp, OF p]
  have c: "visit (Suc 3) (example_ext always_raises) diamond_cfg [StateItem s0] False ''block_0_0'' {}
     False None fresh_vstate = Raise Z3Exception" .
  from a b c show ?thesis by simp
qed

text \<open>
  C1 as stated fails. With a solver that answers \<^verbatim>\<open>unknown\<close>, both edges of block 0 of
  \<open>diamond_cfg\<close> are pruned: neither successor is emulated and the input state comes
  back. With a solver that raises, the traversal ends with the exception. And in guided
  mode no answer prunes: with the solver that refutes constraint 1 and an operator who
  answers \<^verbatim>\<open>T\<close> at block 0, the edge \<^verbatim>\<open>conditional_true\<close> is followed, block 1 is
  emulated with the constraint list \<open>[1]\<close>.
\<close>

theorem unknown_verdict_prunes:
  "traverse_one 4 (example_ext always_unknown) diamond_cfg ''f'' None empty_io =
   Return ([StateItem s0], [],
           [Emulated ''block_0_0'' [StateItem s0], Checked [1], Checked [2]]) \<and>
   traverse_one 4 (example_ext always_raises) diamond_cfg ''f'' None empty_io =
   Raise Z3Exception \<and>
   traverse_one 4 (example_ext refutes_1) (diamond_cfg\<lparr>manual_guide := True\<rparr>) ''f'' None
     ([''1'', ''T'', ''1'', ''f'', ''1'', ''f''], []) =
   Return ([StateItem (s0\<lparr>constraints := [1]\<rparr>)], [],
           [Emulated ''block_0_0'' [StateItem s0], Checked [1], Checked [2],
            Emulated ''block_0_1'' [StateItem (s0\<lparr>constraints := [1]\<rparr>)],
            Emulated ''block_0_3'' [StateItem (s0\<lparr>constraints := [1]\<rparr>)],
            Emulated ''block_0_4'' [StateItem (s0\<lparr>constraints := [1]\<rparr>)]])"
  by code_simp

section \<open>Malformed operator input\<close>

lemma py_split_nonempty: "py_split sep s \<noteq> []"
  by (induction s) (auto split: list.splits)

lemma py_join_split: "py_join sep (py_split sep s) = s"
proof (induction s)
  case Nil
  then show ?case by simp
next
  case (Cons c cs)
  obtain p ps where ps: "py_split sep cs = p # ps"
    using py_split_nonempty [of sep cs] by (cases "py_split sep cs") auto
  with Cons show ?case by (cases ps) auto
qed

lemma parse_input_branch_unknown:
  "user_input \<notin> {''T'', ''F'', ''f'', ''u''} \<Longrightarrow> \<exists>e. parse_input True user_input = Inl e"
  by (auto simp: parse_input_def branch_mapping_def split: sum.splits list.splits)

lemma parse_input_not_int:
  assumes "\<forall>cv. user_input = cv \<or> user_input = cv @ '' i'' \<longrightarrow> py_int cv = None"
  shows "\<exists>e. parse_input False user_input = Inl e"
proof (cases "CHR '' '' \<in> set user_input")
  case False
  with assms show ?thesis by (simp add: parse_input_def)
next
  case True
  show ?thesis
  proof (cases "\<exists>cv. py_split (CHR '' '') user_input = [cv, ''i'']")
    case True
    then obtain cv where s: "py_split (CHR '' '') user_input = [cv, ''i'']" by blast
    from py_join_split [of "CHR '' ''" user_input] s have "user_input = cv @ '' i''" by simp
    with assms have "py_int cv = None" by blast
    with s \<open>CHR '' '' \<in> set user_input\<close> show ?thesis by (simp add: parse_input_def)
  next
    case False
    with True show ?thesis
      by (auto simp: parse_input_def split: list.splits)
  qed
qed

lemma malformed_parse:
  assumes "isbr \<and> user_input \<notin> {''T'', ''F'', ''f'', ''u'', ''T i'', ''F i'', ''f i'', ''u i''} \<or>
     \<not> isbr \<and> (\<forall>cv. user_input = cv \<or> user_input = cv @ '' i'' \<longrightarrow> py_int cv = None)"
  shows "ask_user_input ext emul_states isbr branches state_item (user_input # rest) =
         (Inl TypeError, rest)"
proof -
  from assms obtain e where "parse_input isbr user_input = Inl e"
    using parse_input_branch_unknown [of user_input] parse_input_not_int [of user_input]
    by (cases isbr) auto
  then show ?thesis by simp
qed

lemma avail_br_loop_returns:
  assumes "\<forall>cs. \<exists>verdict. solver_check ext cs = Inr verdict"
  shows "\<exists>avail_br' st'. avail_br_loop ext state_item tys avail_br st = Return (avail_br', st') \<and>
                          stdin st' = stdin st"
proof (induction tys arbitrary: avail_br st)
  case Nil
  show ?case by simp
next
  case (Cons ty tys)
  have "\<exists>keep st1. branch_available ext state_item ty st = Return (keep, st1) \<and>
                    stdin st1 = stdin st"
  proof (cases state_item)
    case (StateItem s)
    then show ?thesis by (auto simp: branch_available_def)
  next
    case (DictItem d)
    show ?thesis
    proof (cases "map_of d ty")
      case None
      with DictItem show ?thesis by (auto simp: branch_available_def)
    next
      case (Some s)
      from assms obtain verdict where "solver_check ext (constraints s) = Inr verdict" by blast
      with DictItem Some show ?thesis by (auto simp: branch_available_def)
    qed
  qed
  then obtain keep st1 where b: "branch_available ext state_item ty st = Return (keep, st1)"
    and s: "stdin st1 = stdin st" by blast
  from Cons [of "if keep then avail_br @ [ty] else avail_br" st1] b s
  show ?case by simp
qed

text \<open>
  C9, as the code has it: on a malformed line \<^verbatim>\<open>ask_user_input\<close> does not prompt
  again. The handler of the \<^verbatim>\<open>try\<close> raises, and since what it raises is a string, the
  exception is a \<^verbatim>\<open>TypeError\<close>. It leaves the prompt loop with the lines that follow
  unread and no choice made. \<^verbatim>\<open>ask_user_input\<close> yields this outcome and the input left
  and nothing else: counters, states and log are not in its reach. The exception ends
  the call of \<^verbatim>\<open>visit\<close> in guided mode, at the state prompt and, when the operator
  has chosen a state and the solver calls return, at the branch prompt.

  Malformed are, at the branch prompt, the lines other than \<^verbatim>\<open>T\<close>, \<^verbatim>\<open>F\<close>, \<^verbatim>\<open>f\<close>,
  \<^verbatim>\<open>u\<close> and these followed by \<^verbatim>\<open> i\<close>, and at the state prompt the lines that are
  neither a number for \<^verbatim>\<open>int\<close> nor such a number followed by \<^verbatim>\<open> i\<close>. The visited
  block is one whose emulation does not halt and that has outgoing edges; at the branch
  prompt the line \<open>chosen\<close>, read before, is the number of one of the emulator's states.
\<close>

theorem malformed_input_raises:
  assumes "isbr \<and> user_input \<notin> {''T'', ''F'', ''f'', ''u'', ''T i'', ''F i'', ''f i'', ''u i''} \<or>
     \<not> isbr \<and> (\<forall>cv. user_input = cv \<or> user_input = cv @ '' i'' \<longrightarrow> py_int cv = None)"
  shows "ask_user_input ext emul_states isbr branches state_item (user_input # rest) =
           (Inl TypeError, rest) \<and>
   (\<not> isbr \<and>
    map_of (bb_to_instructions g) b = Some instructions \<and>
    emulate_basic_block ext states has_ret instructions = Inr (False, emul_states) \<and>
    out_edges g b \<noteq> [] \<and>
    stdin st = user_input # rest \<longrightarrow>
    visit (Suc n) ext g states has_ret b circles True forced st = Raise TypeError) \<and>
   (isbr \<and>
    map_of (bb_to_instructions g) b = Some instructions \<and>
    emulate_basic_block ext states has_ret instructions = Inr (False, emul_states) \<and>
    out_edges g b \<noteq> [] \<and>
    stdin st = chosen # user_input # rest \<and>
    CHR '' '' \<notin> set chosen \<and> py_int chosen = Some k \<and> 1 \<le> k \<and> k \<le> int (length emul_states) \<and>
    (\<forall>cs. \<exists>verdict. solver_check ext cs = Inr verdict) \<longrightarrow>
    visit (Suc n) ext g states has_ret b circles True forced st = Raise TypeError)"
proof (intro conjI impI)
  show "ask_user_input ext emul_states isbr branches state_item (user_input # rest) =
        (Inl TypeError, rest)"
    using assms by (rule malformed_parse)
next
  assume a: "\<not> isbr \<and>
    map_of (bb_to_instructions g) b = Some instructions \<and>
    emulate_basic_block ext states has_ret instructions = Inr (False, emul_states) \<and>
    out_edges g b \<noteq> [] \<and>
    stdin st = user_input # rest"
  with assms have "ask_user_input ext emul_states False [] None (user_input # rest) =
                   (Inl TypeError, rest)"
    using malformed_parse [of False user_input ext emul_states "[]" None rest] by simp
  with a show "visit (Suc n) ext g states has_ret b circles True forced st = Raise TypeError"
    by (simp add: visit_body_def explore_def)
next
  assume a: "isbr \<and>
    map_of (bb_to_instructions g) b = Some instructions \<and>
    emulate_basic_block ext states has_ret instructions = Inr (False, emul_states) \<and>
    out_edges g b \<noteq> [] \<and>
    stdin st = chosen # user_input # rest \<and>
    CHR '' '' \<notin> set chosen \<and> py_int chosen = Some k \<and> 1 \<le> k \<and> k \<le> int (length emul_states) \<and>
    (\<forall>cs. \<exists>verdict. solver_check ext cs = Inr verdict)"
  let ?st1 = "st\<lparr>events := events st @ [Emulated b states], vis := (vis st)(b := vis st b + 1)\<rparr>"
  let ?item = "emul_states ! nat (k - 1)"
  let ?st2 = "?st1\<lparr>stdin := user_input # rest\<rparr>"
  let ?tys = "case forced of None \<Rightarrow> map fst (out_edges g b) | Some bs \<Rightarrow> bs"
  let ?rec = "\<lambda>states' b' branches' st'. visit n ext g states' has_ret b' circles True branches' st'"
  from a have p: "parse_input False chosen = Inr (StateIndex (k - 1), False)"
    by (simp add: parse_input_def)
  then have q: "ask_user_input ext emul_states False [] None (chosen # user_input # rest) =
             (Inr (StateIndex (k - 1)), user_input # rest)"
    by simp
  from a have i: "py_index emul_states (k - 1) = Some ?item"
    by (simp add: py_index_def Let_def)
  from a obtain avail_br st3 where
    l: "avail_br_loop ext ?item ?tys [] ?st2 = Return (avail_br, st3)"
    and s: "stdin st3 = stdin ?st2"
    using avail_br_loop_returns [of ext ?item ?tys "[]" ?st2] by blast
  from a assms have m: "ask_user_input ext [?item] True avail_br (Some ?item) (user_input # rest) =
                  (Inl TypeError, rest)"
    using malformed_parse [of True user_input ext "[?item]" avail_br "Some ?item" rest] by simp
  from l s m have v: "visit_state_item ?rec ext g circles True b forced [?item] ?item [] ?st2 =
                Raise TypeError"
    by (simp add: visit_state_item_def)
  from a q i have "explore ?rec ext g circles True b forced emul_states ?st1 =
        states_loop (visit_state_item ?rec ext g circles True b forced [?item]) [?item] [] ?st2"
    by (simp add: explore_def)
  with v have "explore ?rec ext g circles True b forced emul_states ?st1 = Raise TypeError"
    by simp
  with a show "visit (Suc n) ext g states has_ret b circles True forced st = Raise TypeError"
    by (simp add: visit_body_def)
qed

lemma py_int_letters: "py_int ''one'' = None"
  by (simp add: py_int_def py_isspace_def py_isdigit_def)

lemma py_int_one: "py_int ''1'' = Some 1"
  by (simp add: py_int_def py_isspace_def py_isdigit_def int_max_str_digits_def)

lemma one_is_no_info_request: "''one'' \<noteq> cv @ '' i''"
proof
  assume "''one'' = cv @ '' i''"
  then have "last ''one'' = last (cv @ '' i'')" by simp
  then show False by simp
qed

text \<open>
  Block 0 of \<open>diamond_cfg\<close> in guided mode: the line \<^verbatim>\<open>one\<close> at the state prompt, and
  the line \<^verbatim>\<open>x\<close> at the branch prompt after state 1 was chosen.
\<close>

theorem malformed_input_raises_witness:
  "ask_user_input (example_ext always_sat) [DictItem forked] False [] None (''one'' # [''1'']) =
     (Inl TypeError, [''1'']) \<and>
   visit (Suc 3) (example_ext always_sat) diamond_cfg [StateItem s0] False ''block_0_0'' {} True
     None (fresh_vstate\<lparr>stdin := [''one'', ''1'']\<rparr>) = Raise TypeError \<and>
   ask_user_input (example_ext always_sat) [DictItem forked] True [] None (''x'' # [''T'']) =
     (Inl TypeError, [''T'']) \<and>
   visit (Suc 3) (example_ext always_sat) diamond_cfg [StateItem s0] False ''block_0_0'' {} True
     None (fresh_vstate\<lparr>stdin := [''1'', ''x'', ''T'']\<rparr>) = Raise TypeError"
proof -
  have a: "False \<and> ''one'' \<notin> {''T'', ''F'', ''f'', ''u'', ''T i'', ''F i'', ''f i'', ''u i''} \<or>
           \<not> False \<and> (\<forall>cv. ''one'' = cv \<or> ''one'' = cv @ '' i'' \<longrightarrow> py_int cv = None)"
    using py_int_letters one_is_no_info_request by auto
  have b: "True \<and> ''x'' \<notin> {''T'', ''F'', ''f'', ''u'', ''T i'', ''F i'', ''f i'', ''u i''} \<or>
           \<not> True \<and> (\<forall>cv. ''x'' = cv \<or> ''x'' = cv @ '' i'' \<longrightarrow> py_int cv = None)"
    by simp
  have h2: "map_of (bb_to_instructions diamond_cfg) ''block_0_0'' = Some [0]"
    by (simp add: diamond_cfg_def)
  have h3: "emulate_basic_block (example_ext always_sat) [StateItem s0] False [0] =
            Inr (False, [DictItem forked])"
    by (simp add: example_ext_def forked_def s0_def)
  have h4: "out_edges diamond_cfg ''block_0_0'' \<noteq> []"
    by (simp add: out_edges_def diamond_cfg_def)
  have sv: "\<forall>cs. \<exists>verdict. solver_check (example_ext always_sat) cs = Inr verdict"
    by (simp add: example_ext_def always_sat_def)
  note ta = malformed_input_raises [OF a, where ext = "example_ext always_sat"
      and emul_states = "[DictItem forked]" and branches = "[]" and state_item = None
      and rest = "[''1'']" and g = diamond_cfg and b = "''block_0_0''" and instructions = "[0]"
      and states = "[StateItem s0]" and has_ret = False
      and st = "fresh_vstate\<lparr>stdin := [''one'', ''1'']\<rparr>" and n = 3 and circles = "{}"
      and forced = None]
  note tb = malformed_input_raises [OF b, where ext = "example_ext always_sat"
      and emul_states = "[DictItem forked]" and branches = "[]" and state_item = None
      and rest = "[''T'']" and g = diamond_cfg and b = "''block_0_0''" and instructions = "[0]"
      and states = "[StateItem s0]" and has_ret = False
      and st = "fresh_vstate\<lparr>stdin := [''1'', ''x'', ''T'']\<rparr>" and n = 3 and circles = "{}"
      and forced = None and chosen = "''1''" and k = 1]
  from ta have a1: "ask_user_input (example_ext always_sat) [DictItem forked] False [] None
      (''one'' # [''1'']) = (Inl TypeError, [''1''])"
    by (rule conjunct1)
  have pa: "\<not> False \<and>
    map_of (bb_to_instructions diamond_cfg) ''block_0_0'' = Some [0] \<and>
    emulate_basic_block (example_ext always_sat) [StateItem s0] False [0] =
      Inr (False, [DictItem forked]) \<and>
    out_edges diamond_cfg ''block_0_0'' \<noteq> [] \<and>
    stdin (fresh_vstate\<lparr>stdin := [''one'', ''1'']\<rparr>) = ''one'' # [''1'']"
    using h2 h3 h4 by simp
  from ta [THEN conjunct2, THEN conjunct1, THEN mp, OF pa]
  have a2: "visit (Suc 3) (example_ext always_sat) diamond_cfg [StateItem s0] False ''block_0_0'' {} True
     None (fresh_vstate\<lparr>stdin := [''one'', ''1'']\<rparr>) = Raise TypeError" .
  from tb have b1: "ask_user_input (example_ext always_sat) [DictItem forked] True [] None
      (''x'' # [''T'']) = (Inl TypeError, [''T''])"
    by (rule conjunct1)
  have pb: "True \<and>
    map_of (bb_to_instructions diamond_cfg) ''block_0_0'' = Some [0] \<and>
    emulate_basic_block (example_ext always_sat) [StateItem s0] False [0] =
      Inr (False, [DictItem forked]) \<and>
    out_edges diamond_cfg ''block_0_0'' \<noteq> [] \<and>
    stdin (fresh_vstate\<lparr>stdin := [''1'', ''x'', ''T'']\<rparr>) = ''1'' # ''x'' # [''T''] \<and>
    CHR '' '' \<notin> set ''1'' \<and> py_int ''1'' = Some 1 \<and> 1 \<le> (1::int) \<and>
    (1::int) \<le> int (length [DictItem forked]) \<and>
    (\<forall>cs. \<exists>verdict. solver_check (example_ext always_sat) cs = Inr verdict)"
    using h2 h3 h4 sv py_int_one by simp
  from tb [THEN conjunct2, THEN conjunct2, THEN mp, OF pb]
  have b2: "visit (Suc 3) (example_ext always_sat) diamond_cfg [StateItem s0] False ''block_0_0'' {} True
     None (fresh_vstate\<lparr>stdin := [''1'', ''x'', ''T'']\<rparr>) = Raise TypeError" .
  from a1 a2 b1 b2 show ?thesis by (intro conjI)
qed

text \<open>
  C9 as stated fails: the state prompt, given a line that is no number, raises and
  leaves the next line unread, and the exception ends the traversal of the function.
\<close>

theorem malformed_input_is_not_asked_again:
  "ask_user_input (example_ext always_sat) [StateItem s0] False [] None [''one'', ''1'']
   = (Inl TypeError, [''1'']) \<and>
   traverse_one 4 (example_ext always_sat) (diamond_cfg\<lparr>manual_guide := True\<rparr>) ''f'' None
     ([''one'', ''1'', ''T'', ''1'', ''f'', ''1'', ''f''], []) = Raise TypeError"
  by code_simp


end
